theory Spec2Isabelle
  imports
    Main
    "HOL-Library.AList"
    "HOL-Library.Multiset"
    "HOL-Library.Char_ord"
    "HOL-Library.List_Lexorder"
    "HOL-Library.Word"
begin

section \<open>Image-layer resolution and build-plan construction\<close>

text \<open>
  A shallow embedding of \<^verbatim>\<open>scripts/run_dev/build_image_layers.py\<close>: the ordering of
  environment keys (\<^verbatim>\<open>ImageKey.from_key_set\<close>), the greedy resolution of a key
  sequence into Dockerfiles (\<^verbatim>\<open>resolve_dockerfiles\<close>), the fingerprint of a chain
  (\<^verbatim>\<open>ImageBuildPlan.md5hash\<close>) and the bake dictionary
  (\<^verbatim>\<open>ImageBuildPlan.generate_bake_dict\<close>).

  Python strings are \<^typ>\<open>string\<close>; their order \<open><\<close> is the lexicographic order of
  \<open>HOL-Library.List_Lexorder\<close> over the character order of \<open>HOL-Library.Char_ord\<close>.
  A \<^verbatim>\<open>Path\<close> is the string it was built from. The file system is a parameter: a
  partial map from a path to the bytes of the regular file there. MD5 is a parameter too:
  a function from bytes to a 128-bit digest, printed as 32 hexadecimal digits.
\<close>

subsection \<open>Strings\<close>

text \<open>\<^verbatim>\<open>sep.join(xs)\<close>\<close>

fun join :: "string \<Rightarrow> string list \<Rightarrow> string" where
  "join sep [] = []"
| "join sep [x] = x"
| "join sep (x # y # ys) = x @ sep @ join sep (y # ys)"

text \<open>\<^verbatim>\<open>sub in s\<close> for strings: \<open>sub\<close> starts at some position of \<open>s\<close>.\<close>

fun str_in :: "string \<Rightarrow> string \<Rightarrow> bool" where
  "str_in sub [] = (sub = [])"
| "str_in sub (c # cs) = (take (length sub) (c # cs) = sub \<or> str_in sub cs)"

text \<open>
  \<^verbatim>\<open>s.count(sub)\<close>: the number of non-overlapping occurrences, scanning from the left
  (\<open>len(s) + 1\<close> for the empty \<open>sub\<close>).
\<close>

function str_count :: "string \<Rightarrow> string \<Rightarrow> nat" where
  "str_count sub s =
     (if sub = [] then length s + 1
      else if s = [] then 0
      else if take (length sub) s = sub then 1 + str_count sub (drop (length sub) s)
      else str_count sub (tl s))"
  by pat_completeness auto
termination
  by (relation "measure (\<lambda>(sub, s). length s)") auto

declare str_count.simps [simp del]

subsection \<open>The file system and the digest\<close>

type_synonym filesystem = "string \<Rightarrow> string option"

text \<open>\<^verbatim>\<open>Path(p).is_file()\<close>\<close>

definition is_file :: "filesystem \<Rightarrow> string \<Rightarrow> bool" where
  "is_file fs p = (fs p \<noteq> None)"

text \<open>\<^verbatim>\<open>Path(p).name\<close>: the last component of the path, the text after its last slash.\<close>

definition path_name :: "string \<Rightarrow> string" where
  "path_name p = rev (takeWhile (\<lambda>c. c \<noteq> CHR ''/'') (rev p))"

type_synonym digest = "string \<Rightarrow> 128 word"

definition hex_char :: "nat \<Rightarrow> char" where
  "hex_char n = ''0123456789abcdef'' ! (n mod 16)"

fun hex_digits :: "nat \<Rightarrow> nat \<Rightarrow> string" where
  "hex_digits 0 n = []"
| "hex_digits (Suc k) n = hex_digits k (n div 16) @ [hex_char n]"

text \<open>\<^verbatim>\<open>hexdigest()\<close>, and the first field of a line of \<^verbatim>\<open>md5sum\<close>: 32 hexadecimal digits.\<close>

definition hexdigest :: "128 word \<Rightarrow> string" where
  "hexdigest w = hex_digits 32 (unat w)"

subsection \<open>Image keys, Dockerfiles and plans\<close>

text \<open>
  An \<^verbatim>\<open>ImageKey\<close> is its list \<^verbatim>\<open>image_keys_\<close>; \<^verbatim>\<open>str(image_key)\<close> joins the list
  with dots.
\<close>

definition image_key_str :: "string list \<Rightarrow> string" where
  "image_key_str image_keys = join ''.'' image_keys"

record Dockerfile =
  dockerfile_path :: string
  context_dir :: string
  image_key :: "string list"

text \<open>\<^verbatim>\<open>Dockerfile.image_key()\<close>\<close>

definition image_key_of :: "Dockerfile \<Rightarrow> string" where
  "image_key_of d = image_key_str (image_key d)"

record ImageBuildPlan =
  dockerfiles :: "Dockerfile list"
  plan_image_key :: "string list option"
  build_variables :: "(string \<times> string) list"

subsection \<open>Resolution\<close>

text \<open>
  The path \<^verbatim>\<open>Path(f"{docker_search_dir}/Dockerfile.{layer_image_suffix}")\<close>, where
  the suffix is \<^verbatim>\<open>".".join(layer_image_ids)\<close>; then the innermost loop of
  \<^verbatim>\<open>resolve_dockerfiles\<close>: the search directories in their order, stopping at the
  first that holds that file.
\<close>

definition dockerfile_for :: "string \<Rightarrow> string list \<Rightarrow> string" where
  "dockerfile_for docker_search_dir layer_image_ids =
     docker_search_dir @ ''/Dockerfile.'' @ join ''.'' layer_image_ids"

fun search_dirs :: "filesystem \<Rightarrow> string list \<Rightarrow> string list \<Rightarrow> Dockerfile option" where
  "search_dirs fs [] layer_image_ids = None"
| "search_dirs fs (docker_search_dir # rest) layer_image_ids =
     (let dockerfile = dockerfile_for docker_search_dir layer_image_ids
      in if is_file fs dockerfile
         then Some \<lparr>dockerfile_path = dockerfile, context_dir = docker_search_dir,
                    image_key = layer_image_ids\<rparr>
         else search_dirs fs rest layer_image_ids)"

text \<open>
  The loop \<^verbatim>\<open>for i in reversed(range(len(image_ids)))\<close>, over the indices still to
  visit. It returns the suffixes it searched for, in order (what the verbose mode prints
  as \<^verbatim>\<open>Searching for ...\<close>), and the match if there is one: the Dockerfile and the
  image ids that remain. The \<^verbatim>\<open>break\<close> at \<open>i = 1\<close> under
  \<^verbatim>\<open>ignore_composite_keys\<close> ends the loop with no match.
\<close>

fun scan_lengths ::
  "filesystem \<Rightarrow> string list \<Rightarrow> bool \<Rightarrow> string list \<Rightarrow> nat list \<Rightarrow>
   string list \<times> (Dockerfile \<times> string list) option" where
  "scan_lengths fs docker_search_dirs ignore_composite_keys image_ids [] = ([], None)"
| "scan_lengths fs docker_search_dirs ignore_composite_keys image_ids (i # is) =
     (if ignore_composite_keys \<and> i = 1 then ([], None)
      else
        let layer_image_ids = take (i + 1) image_ids;
            layer_image_suffix = join ''.'' layer_image_ids
        in case search_dirs fs docker_search_dirs layer_image_ids of
             Some d \<Rightarrow> ([layer_image_suffix], Some (d, drop (i + 1) image_ids))
           | None \<Rightarrow>
               (case scan_lengths fs docker_search_dirs ignore_composite_keys image_ids is of
                  (searched, r) \<Rightarrow> (layer_image_suffix # searched, r)))"

text \<open>One pass of the \<^verbatim>\<open>while\<close> body up to its check: the new Dockerfile list and image ids.\<close>

definition resolve_round ::
  "filesystem \<Rightarrow> string list \<Rightarrow> bool \<Rightarrow> string list \<Rightarrow> Dockerfile list \<Rightarrow>
   Dockerfile list \<times> string list" where
  "resolve_round fs docker_search_dirs ignore_composite_keys image_ids dfs =
     (case snd (scan_lengths fs docker_search_dirs ignore_composite_keys image_ids
                  (rev [0..<length image_ids])) of
        None \<Rightarrow> (dfs, image_ids)
      | Some (d, remaining) \<Rightarrow> (dfs @ [d], remaining))"

lemma scan_lengths_remaining:
  "snd (scan_lengths fs dirs ign image_ids is) = Some (d, remaining) \<Longrightarrow>
   \<exists>i \<in> set is. remaining = drop (i + 1) image_ids \<and> image_key d = take (i + 1) image_ids"
proof (induction "is")
  case Nil
  then show ?case by simp
next
  case (Cons i "is")
  show ?case
  proof (cases "ign \<and> i = 1")
    case True
    with Cons.prems show ?thesis by simp
  next
    case False
    note nobreak = this
    show ?thesis
    proof (cases "search_dirs fs dirs (take (i + 1) image_ids)")
      case None
      with nobreak Cons.prems
      have "snd (scan_lengths fs dirs ign image_ids is) = Some (d, remaining)"
        by (auto simp: Let_def split: prod.splits)
      from Cons.IH [OF this] show ?thesis by auto
    next
      case (Some d')
      have "image_key d' = take (i + 1) image_ids"
        using Some by (induction dirs) (auto simp: Let_def split: if_splits)
      with nobreak Some Cons.prems show ?thesis by (auto simp: Let_def)
    qed
  qed
qed

lemma resolve_round_length:
  "length (snd (resolve_round fs dirs ign image_ids dfs)) \<le> length image_ids"
proof (cases "snd (scan_lengths fs dirs ign image_ids (rev [0..<length image_ids]))")
  case None
  then show ?thesis by (simp add: resolve_round_def)
next
  case (Some m)
  obtain d remaining where m: "m = (d, remaining)" by (cases m)
  from scan_lengths_remaining [OF Some [unfolded m]]
  have "length remaining \<le> length image_ids" by auto
  with Some m show ?thesis by (simp add: resolve_round_def)
qed

text \<open>
  The \<^verbatim>\<open>while image_ids:\<close> loop. \<open>None\<close> is the \<^verbatim>\<open>return None\<close> of a pass that
  matched nothing (\<^verbatim>\<open>unmatched_id_count == len(image_ids)\<close>).
\<close>

function resolve_loop ::
  "filesystem \<Rightarrow> string list \<Rightarrow> bool \<Rightarrow> string list \<Rightarrow> Dockerfile list \<Rightarrow>
   Dockerfile list option" where
  "resolve_loop fs docker_search_dirs ignore_composite_keys image_ids dfs =
     (if image_ids = [] then Some dfs
      else
        let unmatched_id_count = length image_ids;
            st = resolve_round fs docker_search_dirs ignore_composite_keys image_ids dfs
        in if unmatched_id_count = length (snd st) then None
           else resolve_loop fs docker_search_dirs ignore_composite_keys (snd st) (fst st))"
  by pat_completeness auto
termination
proof (relation "measure (\<lambda>(fs, dirs, ign, image_ids, dfs). length image_ids)")
  show "wf (measure (\<lambda>(fs, dirs, ign, image_ids, dfs). length image_ids))" by simp
next
  fix fs :: filesystem and dirs ign image_ids dfs and n :: nat and st
  assume "n = length image_ids"
    and st: "st = resolve_round fs dirs ign image_ids dfs"
    and ne: "n \<noteq> length (snd st)"
  with resolve_round_length [of fs dirs ign image_ids dfs]
  show "((fs, dirs, ign, snd st, fst st), (fs, dirs, ign, image_ids, dfs))
          \<in> measure (\<lambda>(fs, dirs, ign, image_ids, dfs). length image_ids)"
    by simp
qed

declare resolve_loop.simps [simp del]

text \<open>\<^verbatim>\<open>resolve_dockerfiles(image_key, docker_search_dirs, ignore_composite_keys)\<close>\<close>

definition resolve_dockerfiles ::
  "filesystem \<Rightarrow> string list \<Rightarrow> string list \<Rightarrow> bool \<Rightarrow> ImageBuildPlan option" where
  "resolve_dockerfiles fs image_keys docker_search_dirs ignore_composite_keys =
     (case resolve_loop fs docker_search_dirs ignore_composite_keys image_keys [] of
        None \<Rightarrow> None
      | Some dfs \<Rightarrow>
          Some \<lparr>dockerfiles = dfs, plan_image_key = Some image_keys, build_variables = []\<rparr>)"

subsection \<open>Key ordering\<close>

text \<open>
  \<^verbatim>\<open>key_order.index(a)\<close>: the position of the first occurrence. Python raises
  \<^verbatim>\<open>ValueError\<close> for an absent element; \<open>compare_image_keys\<close> asks for the index
  only under the guard \<^verbatim>\<open>a in key_order\<close>, so the value at the empty list is never
  used.
\<close>

fun list_index :: "'a list \<Rightarrow> 'a \<Rightarrow> nat" where
  "list_index [] a = 0"
| "list_index (x # xs) a = (if x = a then 0 else Suc (list_index xs a))"

text \<open>The comparator \<^verbatim>\<open>compare_image_keys\<close> of \<^verbatim>\<open>ImageKey.from_key_set\<close>.\<close>

definition compare_image_keys :: "string list \<Rightarrow> string \<Rightarrow> string \<Rightarrow> int" where
  "compare_image_keys key_order a b =
     (if a \<in> set key_order \<and> b \<in> set key_order
      then (if list_index key_order a < list_index key_order b then - 1 else 1)
      else if a \<in> set key_order then - 1
      else if b \<in> set key_order then 1
      else (if a < b then - 1 else 1))"

text \<open>
  \<^verbatim>\<open>sorted(xs, key=functools.cmp_to_key(cmp))\<close>. Python's sort is stable and compares
  two elements only by \<^verbatim>\<open>K(x) < K(y)\<close>, which \<^verbatim>\<open>cmp_to_key\<close> defines as
  \<^verbatim>\<open>cmp(x, y) < 0\<close>. It is modelled by the stable insertion sort over that test: each
  element, from the last to the first, is put before the first element of the sorted
  rest that is not less than it.
\<close>

fun insort_cmp :: "('a \<Rightarrow> 'a \<Rightarrow> int) \<Rightarrow> 'a \<Rightarrow> 'a list \<Rightarrow> 'a list" where
  "insort_cmp cmp x [] = [x]"
| "insort_cmp cmp x (y # ys) =
     (if cmp y x < 0 then y # insort_cmp cmp x ys else x # y # ys)"

definition sorted_cmp :: "('a \<Rightarrow> 'a \<Rightarrow> int) \<Rightarrow> 'a list \<Rightarrow> 'a list" where
  "sorted_cmp cmp xs = foldr (insort_cmp cmp) xs []"

text \<open>
  \<^verbatim>\<open>ImageKey.from_key_set(image_key_set, key_order)\<close>; the list \<open>image_key_set\<close> is
  the key set in the order in which Python iterates it.
\<close>

definition from_key_set :: "string list \<Rightarrow> string list option \<Rightarrow> string list" where
  "from_key_set image_key_set key_order =
     (let key_order = (case key_order of None \<Rightarrow> [] | Some ko \<Rightarrow> if ko = [] then [] else ko)
      in sorted_cmp (compare_image_keys key_order) image_key_set)"

subsection \<open>The fingerprint of a plan\<close>

text \<open>
  What \<^verbatim>\<open>md5sum NAME\<close> prints in the directory \<open>context_dir\<close>: the digest of the
  file, two spaces, the name and a newline; nothing on standard output when there is no
  such file. The name has no character that is special to the shell, and the search
  directories are absolute paths, as the configuration loader makes them, so that the
  file read after \<^verbatim>\<open>os.chdir(d.context_dir_)\<close> is
  \<open>context_dir/NAME\<close>.
\<close>

definition md5sum_line :: "digest \<Rightarrow> filesystem \<Rightarrow> Dockerfile \<Rightarrow> string" where
  "md5sum_line md5 fs d =
     (let name = path_name (dockerfile_path d)
      in case fs (context_dir d @ ''/'' @ name) of
           None \<Rightarrow> []
         | Some bytes \<Rightarrow> hexdigest (md5 bytes) @ ''  '' @ name @ [CHR 0x0A])"

text \<open>
  \<^verbatim>\<open>ImageBuildPlan.md5hash\<close>: the temporary file starts empty, receives one line for
  each Dockerfile in the order of \<^verbatim>\<open>sorted(self.dockerfiles_, key=lambda x: x.image_key())\<close>,
  and its digest is the result.
\<close>

definition md5hash :: "digest \<Rightarrow> filesystem \<Rightarrow> Dockerfile list \<Rightarrow> string" where
  "md5hash md5 fs dfs =
     (let tmp_file = foldl (\<lambda>tmp d. tmp @ md5sum_line md5 fs d) []
                       (sort_key image_key_of dfs)
      in hexdigest (md5 tmp_file))"

text \<open>\<^verbatim>\<open>ImageBuildPlan.target_name\<close> and \<^verbatim>\<open>ImageBuildPlan.target_names\<close>\<close>

definition target_name :: "digest \<Rightarrow> filesystem \<Rightarrow> Dockerfile list \<Rightarrow> string" where
  "target_name md5 fs dfs =
     (let names = join ''-'' (map image_key_of dfs) in names @ ''_'' @ md5hash md5 fs dfs)"

definition target_names :: "digest \<Rightarrow> filesystem \<Rightarrow> Dockerfile list \<Rightarrow> string list" where
  "target_names md5 fs dfs = map (\<lambda>i. target_name md5 fs (take (i + 1) dfs)) [0..<length dfs]"

subsection \<open>The bake dictionary\<close>

text \<open>
  A target dictionary, one field for each key the program sets; \<open>None\<close> is an absent
  key. The dictionaries \<^verbatim>\<open>targets\<close>, \<^verbatim>\<open>args\<close> and \<^verbatim>\<open>variables\<close> keep their
  insertion order: association lists, where assigning to a key that is present replaces
  its value in place and assigning to a new key appends (\<open>AList.update\<close>).
\<close>

record target =
  t_name :: string
  t_context :: "string option"
  t_dockerfile :: "string option"
  t_dockerfile_inline :: "string option"
  t_tags :: "string list"
  t_args :: "(string \<times> string) list option"
  t_depends_on :: "string list option"

record bake_plan =
  plan_variables :: "(string \<times> string) list"
  plan_targets :: "(string \<times> target) list"

datatype error = KeyError | IndexError

text \<open>\<^verbatim>\<open>d.update(other)\<close>\<close>

definition dict_update :: "('k \<times> 'v) list \<Rightarrow> ('k \<times> 'v) list \<Rightarrow> ('k \<times> 'v) list" where
  "dict_update d other = fold (\<lambda>(k, v). AList.update k v) other d"

text \<open>A value inside an f-string: \<^verbatim>\<open>None\<close> prints as its name.\<close>

definition fmt :: "string option \<Rightarrow> string" where
  "fmt v = (case v of None \<Rightarrow> ''None'' | Some s \<Rightarrow> s)"

text \<open>\<^verbatim>\<open>cache_from_registry and "nvcr.io" in cache_from_registry\<close>\<close>

definition nvcr_registry :: "string option \<Rightarrow> bool" where
  "nvcr_registry cache_from_registry =
     (case cache_from_registry of
        None \<Rightarrow> False
      | Some r \<Rightarrow> r \<noteq> [] \<and> str_in ''nvcr.io'' r)"

definition file_arch_of :: "string \<Rightarrow> string" where
  "file_arch_of arch = (if arch = ''aarch64'' then ''arm64'' else ''amd64'')"

text \<open>
  The body of the loop \<^verbatim>\<open>for i, target in enumerate(dockerfile_list)\<close>: the name
  (\<^verbatim>\<open>target_name\<close> in the source, \<open>tname\<close> here) and the dictionary of stage \<open>i\<close>.
\<close>

definition stage_target ::
  "digest \<Rightarrow> filesystem \<Rightarrow> Dockerfile list \<Rightarrow> string \<Rightarrow> string option \<Rightarrow> string option \<Rightarrow>
   bool \<Rightarrow> nat \<Rightarrow> Dockerfile \<Rightarrow> string \<times> target" where
  "stage_target md5 fs dockerfile_list file_arch cache_from_registry base_image nvcr_tag i target =
     (let platform = file_arch;
          nvcr_url = None;
          tname = target_name md5 fs (take (i + 1) dockerfile_list);
          args = [(''PLATFORM'', file_arch)];
          target_dict = \<lparr>t_name = tname,
                         t_context = Some (context_dir target),
                         t_dockerfile = Some (path_name (dockerfile_path target)),
                         t_dockerfile_inline = None,
                         t_tags = [],
                         t_args = Some args,
                         t_depends_on = None\<rparr>;
          target_dict =
            (if i = 0 then
               let tags = (if nvcr_registry cache_from_registry
                           then [fmt cache_from_registry @ '':'' @ tname @ ''-'' @ platform]
                           else [fmt cache_from_registry @ ''/'' @ tname @ ''-'' @ platform
                                   @ '':latest''])
               in (case base_image of
                     None \<Rightarrow> target_dict\<lparr>t_tags := tags\<rparr>
                   | Some b \<Rightarrow>
                       target_dict\<lparr>t_tags := tags,
                                    t_args := Some (AList.update ''BASE_IMAGE'' b args)\<rparr>)
             else
               let depends_name = target_name md5 fs (take i dockerfile_list);
                   (tags, base_image_ref) =
                     (if nvcr_registry cache_from_registry
                      then ([fmt cache_from_registry @ '':'' @ tname @ ''-'' @ platform],
                            fmt cache_from_registry @ '':'' @ depends_name @ ''-'' @ platform)
                      else ([fmt cache_from_registry @ ''/'' @ tname @ ''-'' @ platform
                               @ '':latest''],
                            fmt cache_from_registry @ ''/'' @ depends_name @ ''-'' @ platform
                               @ '':latest''))
               in target_dict\<lparr>t_tags := tags,
                               t_args := Some (AList.update ''BASE_IMAGE'' base_image_ref args),
                               t_depends_on :=
                                 Some [target_name md5 fs (take i dockerfile_list)]\<rparr>)
      in (tname,
          if nvcr_tag
          then target_dict\<lparr>t_tags := t_tags target_dict @ [fmt nvcr_url @ '':'' @ tname]\<rparr>
          else target_dict))"

text \<open>The whole loop: \<^verbatim>\<open>targets[target_name] = target_dict\<close> for every stage in turn.\<close>

definition stage_targets ::
  "digest \<Rightarrow> filesystem \<Rightarrow> Dockerfile list \<Rightarrow> string \<Rightarrow> string option \<Rightarrow> string option \<Rightarrow>
   bool \<Rightarrow> (string \<times> target) list" where
  "stage_targets md5 fs dockerfile_list file_arch cache_from_registry base_image nvcr_tag =
     fold (\<lambda>(i, target) targets.
             case stage_target md5 fs dockerfile_list file_arch cache_from_registry
                    base_image nvcr_tag i target of
               (tname, target_dict) \<Rightarrow> AList.update tname target_dict targets)
       (List.enumerate 0 dockerfile_list) []"

text \<open>
  The body of the loop \<^verbatim>\<open>for target in targets.values()\<close>: an absent
  \<^verbatim>\<open>args\<close> becomes the empty dictionary, then
  \<^verbatim>\<open>target['args'].update(extra_build_args)\<close>.
\<close>

definition add_build_args :: "(string \<times> string) list \<Rightarrow> target \<Rightarrow> target" where
  "add_build_args extra_build_args target =
     target\<lparr>t_args :=
       Some (dict_update (case t_args target of None \<Rightarrow> [] | Some a \<Rightarrow> a) extra_build_args)\<rparr>"

text \<open>
  \<^verbatim>\<open>if extra_build_args:\<close> runs that loop when the dictionary is given and not
  empty.
\<close>

definition apply_extra_build_args ::
  "(string \<times> string) list option \<Rightarrow> (string \<times> target) list \<Rightarrow> (string \<times> target) list" where
  "apply_extra_build_args extra_build_args targets =
     (case extra_build_args of
        None \<Rightarrow> targets
      | Some extra \<Rightarrow>
          if extra = [] then targets
          else map (\<lambda>(k, target). (k, add_build_args extra target)) targets)"

text \<open>
  \<^verbatim>\<open>ImageBuildPlan.generate_bake_dict\<close>. The parameter \<^verbatim>\<open>cache_to_registry\<close> is
  unused by the source and left out. \<open>Inl KeyError\<close> is the failed look-up
  \<^verbatim>\<open>targets[final_key]\<close>.
\<close>

definition generate_bake_dict ::
  "digest \<Rightarrow> filesystem \<Rightarrow> ImageBuildPlan \<Rightarrow> string \<Rightarrow> string option \<Rightarrow> string option \<Rightarrow>
   string option \<Rightarrow> string option \<Rightarrow> (string \<times> string) list option \<Rightarrow> bool \<Rightarrow>
   error + bake_plan" where
  "generate_bake_dict md5 fs plan arch cache_from_registry target_image_name base_image
     context_dir_override extra_build_args nvcr_tag =
     (let dockerfile_list = dockerfiles plan;
          file_arch = file_arch_of arch;
          variables = dict_update (build_variables plan)
                   [(''ARCH'', arch), (''FILE_ARCH'', file_arch),
                    (''CACHE_FROM_REGISTRY'',
                     case cache_from_registry of
                       None \<Rightarrow> ''local''
                     | Some r \<Rightarrow> if r = [] then ''local'' else r)];
          targets = stage_targets md5 fs dockerfile_list file_arch cache_from_registry
                      base_image nvcr_tag;
          targets = apply_extra_build_args extra_build_args targets
      in case target_image_name of
           None \<Rightarrow> Inr \<lparr>plan_variables = variables, plan_targets = targets\<rparr>
         | Some final_name \<Rightarrow>
             let final_key = target_name md5 fs dockerfile_list
             in (case map_of targets final_key of
                   None \<Rightarrow> Inl KeyError
                 | Some final_target \<Rightarrow>
                     let final_target =
                           (case context_dir_override of
                              None \<Rightarrow> final_target
                            | Some c \<Rightarrow> final_target\<lparr>t_context := Some c\<rparr>);
                         targets = AList.update final_key final_target targets
                     in (case t_tags final_target of
                           [] \<Rightarrow> Inl IndexError
                         | tag # _ \<Rightarrow>
                             let final_target_dict =
                                   \<lparr>t_name = final_name,
                                    t_context = None,
                                    t_dockerfile = None,
                                    t_dockerfile_inline = Some (''FROM '' @ tag),
                                    t_tags = [final_name],
                                    t_args = None,
                                    t_depends_on = Some [t_name final_target]\<rparr>
                             in Inr \<lparr>plan_variables = variables,
                                     plan_targets = AList.update ''final_target'' final_target_dict
                                                 targets\<rparr>)))"

text \<open>
  The dictionary \<^verbatim>\<open>targets\<close> as it stands when the loop over the stages and the
  extra build arguments are done, before the final target is looked at.
\<close>

definition staged_targets ::
  "digest \<Rightarrow> filesystem \<Rightarrow> ImageBuildPlan \<Rightarrow> string \<Rightarrow> string option \<Rightarrow> string option \<Rightarrow>
   (string \<times> string) list option \<Rightarrow> bool \<Rightarrow> (string \<times> target) list" where
  "staged_targets md5 fs plan arch reg base extra nt =
     apply_extra_build_args extra
       (stage_targets md5 fs (dockerfiles plan) (file_arch_of arch) reg base nt)"

subsection \<open>The name of the final image\<close>

text \<open>
  \<^verbatim>\<open>get_image_name\<close>. The environment variable \<^verbatim>\<open>CONFIG_CONTAINER_NAME_SUFFIX\<close>
  and the search directories that \<^verbatim>\<open>load_shell_common_config\<close> leaves in the
  configuration are parameters; that configuration has no key order. \<open>Inl\<close> is
  \<^verbatim>\<open>exit(1)\<close>.
\<close>

datatype exit = SystemExit int

definition get_image_name ::
  "digest \<Rightarrow> filesystem \<Rightarrow> string option \<Rightarrow> string list \<Rightarrow> string \<Rightarrow> string list \<Rightarrow>
   string \<Rightarrow> bool \<Rightarrow> exit + string" where
  "get_image_name md5 fs name_suffix docker_search_dirs cache_from_registry_name env_list
     file_arch include_hash =
     (let base_name = join ''-'' env_list;
          base_name = (case name_suffix of
                         None \<Rightarrow> base_name
                       | Some s \<Rightarrow> if s = [] then base_name else base_name @ ''-'' @ s);
          image_key = from_key_set env_list None;
          build_plan = resolve_dockerfiles fs image_key docker_search_dirs False;
          named = (if include_hash
                   then (case build_plan of
                           Some plan \<Rightarrow> Inr (base_name @ ''_'' @ md5hash md5 fs (dockerfiles plan))
                         | None \<Rightarrow> Inl (SystemExit 1))
                   else Inr base_name)
      in case named of
           Inl e \<Rightarrow> Inl e
         | Inr base_name \<Rightarrow>
             let target_name = base_name @ ''-'' @ file_arch
             in if str_count ''nvcr.io'' cache_from_registry_name \<noteq> 0
                then Inr (cache_from_registry_name @ '':'' @ target_name)
                else Inr (cache_from_registry_name @ ''/'' @ target_name @ '':latest''))"

subsection \<open>Sample inputs\<close>

text \<open>
  A file system with one search directory \<^verbatim>\<open>/d\<close> that holds a Dockerfile for each
  of the keys \<^verbatim>\<open>noble\<close> and \<^verbatim>\<open>ros2_jazzy\<close> and none for their combination, and a
  digest function standing in for MD5 where a concrete one is needed.
\<close>

definition demo_fs :: filesystem where
  "demo_fs = [''/d/Dockerfile.noble'' \<mapsto> ''FROM ubuntu'',
              ''/d/Dockerfile.ros2_jazzy'' \<mapsto> ''RUN x'']"

definition demo_md5 :: digest where
  "demo_md5 bytes = word_of_nat (length bytes)"

text \<open>The plan that the keys \<^verbatim>\<open>noble\<close>, \<^verbatim>\<open>ros2_jazzy\<close> resolve to in that file system.\<close>

definition demo_plan :: ImageBuildPlan where
  "demo_plan = \<lparr>dockerfiles =
       [\<lparr>dockerfile_path = ''/d/Dockerfile.noble'', context_dir = ''/d'',
          image_key = [''noble'']\<rparr>,
        \<lparr>dockerfile_path = ''/d/Dockerfile.ros2_jazzy'', context_dir = ''/d'',
          image_key = [''ros2_jazzy'']\<rparr>],
       plan_image_key = Some [''noble'', ''ros2_jazzy''], build_variables = []\<rparr>"

text \<open>
  Two search directories that both hold a Dockerfile for the pair \<^verbatim>\<open>a.b\<close>, one of
  them also a Dockerfile for \<^verbatim>\<open>a\<close> alone.
\<close>

definition demo_fs_ab :: filesystem where
  "demo_fs_ab = [''/d/Dockerfile.a.b'' \<mapsto> ''FROM x'', ''/d/Dockerfile.a'' \<mapsto> ''FROM y'',
                 ''/e/Dockerfile.a.b'' \<mapsto> ''FROM z'']"

section \<open>Properties of the resolver\<close>

lemma resolve_round_cases:
  "(snd (scan_lengths fs dirs ign image_ids (rev [0..<length image_ids])) = None \<and>
    resolve_round fs dirs ign image_ids dfs = (dfs, image_ids)) \<or>
   (\<exists>d i. i < length image_ids \<and> image_key d = take (i + 1) image_ids \<and>
      resolve_round fs dirs ign image_ids dfs = (dfs @ [d], drop (i + 1) image_ids))"
proof (cases "snd (scan_lengths fs dirs ign image_ids (rev [0..<length image_ids]))")
  case None
  then show ?thesis by (simp add: resolve_round_def)
next
  case (Some m)
  obtain d remaining where m: "m = (d, remaining)" by (cases m)
  from scan_lengths_remaining [OF Some [unfolded m]]
  obtain i where "i < length image_ids" "remaining = drop (i + 1) image_ids"
    "image_key d = take (i + 1) image_ids" by auto
  with Some m show ?thesis by (auto simp: resolve_round_def)
qed

text \<open>
  What the loop appends to the Dockerfiles it starts with: layers whose keys, one after
  the other, are the image ids it was given, none of them empty.
\<close>

lemma resolve_loop_partition:
  "resolve_loop fs dirs ign image_ids dfs = Some out \<Longrightarrow>
   \<exists>new. out = dfs @ new \<and> concat (map image_key new) = image_ids \<and>
         [] \<notin> set (map image_key new)"
proof (induction fs dirs ign image_ids dfs rule: resolve_loop.induct)
  case (1 fs dirs ign image_ids dfs)
  show ?case
  proof (cases "image_ids = []")
    case True
    with "1.prems" show ?thesis by (simp add: resolve_loop.simps)
  next
    case False
    define st where "st = resolve_round fs dirs ign image_ids dfs"
    from "1.prems" False have ne: "length image_ids \<noteq> length (snd st)"
      and rec: "resolve_loop fs dirs ign (snd st) (fst st) = Some out"
      by (auto simp: resolve_loop.simps [of fs dirs ign image_ids dfs] Let_def st_def
          split: if_splits)
    from resolve_round_cases [of fs dirs ign image_ids dfs] ne
    obtain d i where i: "i < length image_ids" and d: "image_key d = take (i + 1) image_ids"
      and st: "st = (dfs @ [d], drop (i + 1) image_ids)"
      by (auto simp: st_def)
    from "1.IH" [OF False refl st_def ne rec]
    obtain new where new: "out = fst st @ new" "concat (map image_key new) = snd st"
      "[] \<notin> set (map image_key new)" by blast
    have "out = dfs @ (d # new)" using new st by simp
    moreover have "concat (map image_key (d # new)) = image_ids"
      using new st d by simp
    moreover have "[] \<notin> set (map image_key (d # new))"
      using new d False by auto
    ultimately show ?thesis by blast
  qed
qed

lemma join_append:
  "xs \<noteq> [] \<Longrightarrow> ys \<noteq> [] \<Longrightarrow> join sep (xs @ ys) = join sep xs @ sep @ join sep ys"
  by (induction sep xs rule: join.induct) (auto simp: neq_Nil_conv)

lemma join_concat:
  "[] \<notin> set xss \<Longrightarrow> join sep (map (join sep) xss) = join sep (concat xss)"
proof (induction xss)
  case Nil
  then show ?case by simp
next
  case (Cons xs xss)
  show ?case
  proof (cases xss)
    case Nil
    then show ?thesis by simp
  next
    case (Cons ys yss)
    from Cons.prems Cons have ne: "xs \<noteq> []" "concat (ys # yss) \<noteq> []" by auto
    have "join sep (map (join sep) (xs # xss)) =
          join sep xs @ sep @ join sep (map (join sep) (ys # yss))"
      using Cons by simp
    also have "\<dots> = join sep xs @ sep @ join sep (concat (ys # yss))"
      using Cons.IH Cons.prems Cons by simp
    also have "\<dots> = join sep (xs @ concat (ys # yss))"
      using join_append [OF ne] by simp
    finally show ?thesis using Cons by simp
  qed
qed

lemma demo_resolve:
  "resolve_dockerfiles demo_fs [''noble'', ''ros2_jazzy''] [''/e'', ''/d''] False =
     Some \<lparr>dockerfiles =
       [\<lparr>dockerfile_path = ''/d/Dockerfile.noble'', context_dir = ''/d'',
          image_key = [''noble'']\<rparr>,
        \<lparr>dockerfile_path = ''/d/Dockerfile.ros2_jazzy'', context_dir = ''/d'',
          image_key = [''ros2_jazzy'']\<rparr>],
       plan_image_key = Some [''noble'', ''ros2_jazzy''], build_variables = []\<rparr>"
  by (simp add: resolve_dockerfiles_def resolve_loop.simps resolve_round_def demo_fs_def
      is_file_def dockerfile_for_def Let_def upt_rec)

text \<open>
  C10. The empty key sequence resolves: the \<^verbatim>\<open>while\<close> loop is not entered, and the
  result is a plan with no Dockerfile, not the failure \<open>None\<close>, whatever the search
  directories, the file system and the flag.
\<close>

theorem resolve_empty_key_sequence:
  "resolve_dockerfiles fs [] dirs ign =
     Some \<lparr>dockerfiles = [], plan_image_key = Some [], build_variables = []\<rparr>"
  by (simp add: resolve_dockerfiles_def resolve_loop.simps)

text \<open>
  C1. Chain coverage: when resolution succeeds, the keys of the plan's Dockerfiles,
  concatenated in chain order, are the key sequence that was resolved; no layer has an
  empty key list, so the layers are consecutive non-empty slices of the sequence, with no
  gap and no overlap. The same holds for the printed keys: the composite keys of the
  layers joined by dots are the dotted key sequence.
\<close>

theorem resolve_chain_coverage:
  assumes "resolve_dockerfiles fs image_keys dirs ign = Some plan"
  shows "concat (map image_key (dockerfiles plan)) = image_keys \<and>
         [] \<notin> set (map image_key (dockerfiles plan)) \<and>
         join ''.'' (map image_key_of (dockerfiles plan)) = image_key_str image_keys"
proof -
  from assms obtain dfs where loop: "resolve_loop fs dirs ign image_keys [] = Some dfs"
    and plan: "dockerfiles plan = dfs"
    by (auto simp: resolve_dockerfiles_def split: option.splits)
  from resolve_loop_partition [OF loop]
  have cover: "concat (map image_key dfs) = image_keys" and ne: "[] \<notin> set (map image_key dfs)"
    by auto
  have "image_key_of = join ''.'' \<circ> image_key"
    by (rule ext) (simp add: image_key_of_def image_key_str_def)
  then have "join ''.'' (map image_key_of dfs) = join ''.'' (map (join ''.'') (map image_key dfs))"
    by simp
  also have "\<dots> = join ''.'' (concat (map image_key dfs))"
    using ne by (rule join_concat)
  finally show ?thesis using cover ne plan by (simp add: image_key_str_def)
qed

theorem resolve_chain_coverage_witness:
  "concat (map image_key
     [\<lparr>dockerfile_path = ''/d/Dockerfile.noble'', context_dir = ''/d'',
        image_key = [''noble'']\<rparr>,
      \<lparr>dockerfile_path = ''/d/Dockerfile.ros2_jazzy'', context_dir = ''/d'',
        image_key = [''ros2_jazzy'']\<rparr>]) = [''noble'', ''ros2_jazzy'']"
  using resolve_chain_coverage [OF demo_resolve] by simp

lemma search_dirs_None:
  "search_dirs fs dirs ks = None \<longleftrightarrow> (\<forall>dir \<in> set dirs. \<not> is_file fs (dockerfile_for dir ks))"
  by (induction dirs) (auto simp: Let_def)

lemma search_dirs_Some:
  "search_dirs fs dirs ks = Some d \<Longrightarrow>
   \<exists>k < length dirs.
     d = \<lparr>dockerfile_path = dockerfile_for (dirs ! k) ks, context_dir = dirs ! k, image_key = ks\<rparr> \<and>
     is_file fs (dockerfile_for (dirs ! k) ks) \<and>
     (\<forall>j < k. \<not> is_file fs (dockerfile_for (dirs ! j) ks))"
proof (induction dirs)
  case Nil
  then show ?case by simp
next
  case (Cons dir dirs)
  show ?case
  proof (cases "is_file fs (dockerfile_for dir ks)")
    case True
    with Cons.prems have "d = \<lparr>dockerfile_path = dockerfile_for dir ks, context_dir = dir, image_key = ks\<rparr>"
      by (simp add: Let_def)
    with True show ?thesis by (intro exI [of _ 0]) simp
  next
    case False
    with Cons.prems have "search_dirs fs dirs ks = Some d" by (simp add: Let_def)
    from Cons.IH [OF this] obtain k where k: "k < length dirs"
      "d = \<lparr>dockerfile_path = dockerfile_for (dirs ! k) ks, context_dir = dirs ! k, image_key = ks\<rparr>"
      "is_file fs (dockerfile_for (dirs ! k) ks)"
      "\<forall>j < k. \<not> is_file fs (dockerfile_for (dirs ! j) ks)" by blast
    have "\<forall>j < Suc k. \<not> is_file fs (dockerfile_for ((dir # dirs) ! j) ks)"
      using False k(4) by (auto simp: less_Suc_eq_0_disj)
    with k show ?thesis by (intro exI [of _ "Suc k"]) simp
  qed
qed

text \<open>Without the flag, the scan over any list of indices stops at the first index whose prefix is found.\<close>

lemma scan_lengths_None:
  "snd (scan_lengths fs dirs False ids is) = None \<longleftrightarrow>
   (\<forall>i \<in> set is. search_dirs fs dirs (take (i + 1) ids) = None)"
  by (induction "is") (auto simp: Let_def split: option.splits prod.splits)

lemma scan_lengths_Some:
  "snd (scan_lengths fs dirs False ids is) = Some (d, remaining) \<Longrightarrow>
   \<exists>pre i post. is = pre @ i # post \<and>
      (\<forall>j \<in> set pre. search_dirs fs dirs (take (j + 1) ids) = None) \<and>
      search_dirs fs dirs (take (i + 1) ids) = Some d \<and> remaining = drop (i + 1) ids"
proof (induction "is")
  case Nil
  then show ?case by simp
next
  case (Cons i "is")
  show ?case
  proof (cases "search_dirs fs dirs (take (i + 1) ids)")
    case None
    with Cons.prems have "snd (scan_lengths fs dirs False ids is) = Some (d, remaining)"
      by (auto simp: Let_def split: prod.splits)
    from Cons.IH [OF this] obtain pre i' post where
      "is = pre @ i' # post" "\<forall>j \<in> set pre. search_dirs fs dirs (take (j + 1) ids) = None"
      "search_dirs fs dirs (take (i' + 1) ids) = Some d" "remaining = drop (i' + 1) ids"
      by blast
    with None show ?thesis by (intro exI [of _ "i # pre"] exI [of _ i'] exI [of _ post]) simp
  next
    case (Some d')
    with Cons.prems show ?thesis
      by (intro exI [of _ "[]"] exI [of _ i] exI [of _ "is"]) (simp add: Let_def)
  qed
qed

lemma rev_upt_split:
  assumes "rev [0..<n] = pre @ i # post"
  shows "i < n \<and> set pre = {j. i < j \<and> j < n}"
proof -
  have "sorted_wrt (>) (rev [0..<n])" by (simp add: sorted_wrt_rev)
  with assms have "sorted_wrt (>) (pre @ i # post)" by simp
  then have gt: "\<forall>j \<in> set pre. i < j" and lt: "\<forall>j \<in> set post. j < i"
    by (auto simp: sorted_wrt_append)
  have mem: "set pre \<union> {i} \<union> set post = {0..<n}"
    using arg_cong [OF assms, of set] by auto
  then have "i < n" by auto
  moreover have "set pre = {j. i < j \<and> j < n}"
  proof (intro set_eqI iffI)
    fix j assume "j \<in> set pre"
    with gt mem show "j \<in> {j. i < j \<and> j < n}" by auto
  next
    fix j assume j: "j \<in> {j. i < j \<and> j < n}"
    then have "j \<in> set pre \<union> {i} \<union> set post" using mem by auto
    with j lt show "j \<in> set pre" by auto
  qed
  ultimately show ?thesis by simp
qed


lemma round_no_match:
  "snd (scan_lengths fs dirs False ids (rev [0..<length ids])) = None \<longleftrightarrow>
   (\<forall>L \<in> {1..length ids}. \<forall>dir \<in> set dirs. \<not> is_file fs (dockerfile_for dir (take L ids)))"
proof -
  have "(\<forall>i \<in> set (rev [0..<length ids]). search_dirs fs dirs (take (i + 1) ids) = None) \<longleftrightarrow>
        (\<forall>L \<in> {1..length ids}. search_dirs fs dirs (take L ids) = None)"
  proof (intro iffI ballI)
    fix L assume a: "\<forall>i \<in> set (rev [0..<length ids]). search_dirs fs dirs (take (i + 1) ids) = None"
      and L: "L \<in> {1..length ids}"
    then have "L - 1 \<in> set (rev [0..<length ids])" by auto
    with a have "search_dirs fs dirs (take (L - 1 + 1) ids) = None" by blast
    with L show "search_dirs fs dirs (take L ids) = None" by simp
  next
    fix i assume a: "\<forall>L \<in> {1..length ids}. search_dirs fs dirs (take L ids) = None"
      and "i \<in> set (rev [0..<length ids])"
    then have "i + 1 \<in> {1..length ids}" by auto
    with a show "search_dirs fs dirs (take (i + 1) ids) = None" by blast
  qed
  then show ?thesis by (simp only: scan_lengths_None search_dirs_None)
qed

lemma round_longest_match:
  assumes "snd (scan_lengths fs dirs False ids (rev [0..<length ids])) = Some (d, remaining)"
  shows "\<exists>L k. 1 \<le> L \<and> L \<le> length ids \<and> k < length dirs \<and>
           d = \<lparr>dockerfile_path = dockerfile_for (dirs ! k) (take L ids),
                context_dir = dirs ! k, image_key = take L ids\<rparr> \<and>
           is_file fs (dockerfile_for (dirs ! k) (take L ids)) \<and>
           (\<forall>j < k. \<not> is_file fs (dockerfile_for (dirs ! j) (take L ids))) \<and>
           (\<forall>L'. L < L' \<and> L' \<le> length ids \<longrightarrow>
              (\<forall>dir \<in> set dirs. \<not> is_file fs (dockerfile_for dir (take L' ids)))) \<and>
           remaining = drop L ids"
proof -
  from scan_lengths_Some [OF assms] obtain pre i post where
    split: "rev [0..<length ids] = pre @ i # post"
    and pre: "\<forall>j \<in> set pre. search_dirs fs dirs (take (j + 1) ids) = None"
    and hit: "search_dirs fs dirs (take (i + 1) ids) = Some d"
    and rem: "remaining = drop (i + 1) ids" by blast
  from rev_upt_split [OF split] have i: "i < length ids"
    and setpre: "set pre = {j. i < j \<and> j < length ids}" by auto
  define L where "L = i + 1"
  from search_dirs_Some [OF hit] obtain k where k: "k < length dirs"
    and d: "d = \<lparr>dockerfile_path = dockerfile_for (dirs ! k) (take L ids),
          context_dir = dirs ! k, image_key = take L ids\<rparr>"
    and isf: "is_file fs (dockerfile_for (dirs ! k) (take L ids))"
    and first: "\<forall>j < k. \<not> is_file fs (dockerfile_for (dirs ! j) (take L ids))"
    unfolding L_def by blast
  have longer: "\<forall>L'. L < L' \<and> L' \<le> length ids \<longrightarrow>
      (\<forall>dir \<in> set dirs. \<not> is_file fs (dockerfile_for dir (take L' ids)))"
  proof (intro allI impI)
    fix L' assume L': "L < L' \<and> L' \<le> length ids"
    then have "L' - 1 \<in> set pre" unfolding setpre L_def by auto
    with pre have "search_dirs fs dirs (take (L' - 1 + 1) ids) = None" by blast
    moreover from L' have "L' - 1 + 1 = L'" by simp
    ultimately have "search_dirs fs dirs (take L' ids) = None" by simp
    then show "\<forall>dir \<in> set dirs. \<not> is_file fs (dockerfile_for dir (take L' ids))"
      by (simp only: search_dirs_None)
  qed
  have bounds: "1 \<le> L" "L \<le> length ids" using i by (simp_all add: L_def)
  have rem': "remaining = drop L ids" using rem by (simp add: L_def)
  from bounds k d isf first longer rem' show ?thesis by blast
qed

lemma resolve_loop_no_match:
  assumes "ids \<noteq> []"
    and "snd (scan_lengths fs dirs ign ids (rev [0..<length ids])) = None"
  shows "resolve_loop fs dirs ign ids dfs = None"
  using assms by (subst resolve_loop.simps) (simp add: resolve_round_def Let_def)

lemma resolve_loop_match:
  assumes "ids \<noteq> []"
    and "snd (scan_lengths fs dirs ign ids (rev [0..<length ids])) = Some (d, remaining)"
  shows "resolve_loop fs dirs ign ids dfs = resolve_loop fs dirs ign remaining (dfs @ [d])"
proof -
  from scan_lengths_remaining [OF assms(2)] assms(1)
  have "length remaining \<noteq> length ids" by auto
  with assms show ?thesis
    by (subst resolve_loop.simps) (simp add: resolve_round_def Let_def)
qed

lemma resolve_pair_single_layer:
  assumes "\<exists>dir \<in> set dirs. is_file fs (dockerfile_for dir [a, b])"
  shows "\<exists>d. resolve_dockerfiles fs [a, b] dirs False =
            Some \<lparr>dockerfiles = [d], plan_image_key = Some [a, b], build_variables = []\<rparr> \<and>
          image_key d = [a, b]"
proof -
  from assms have "search_dirs fs dirs [a, b] \<noteq> None" by (simp only: search_dirs_None) simp
  then obtain d where d: "search_dirs fs dirs [a, b] = Some d" by auto
  from search_dirs_Some [OF d] have key: "image_key d = [a, b]" by auto
  have "snd (scan_lengths fs dirs False [a, b] (rev [0..<length [a, b]])) = Some (d, [])"
    using d by (simp add: upt_rec Let_def)
  from resolve_loop_match [OF _ this, of "[]"]
  have "resolve_loop fs dirs False [a, b] [] = Some [d]"
    by (simp add: resolve_loop.simps [of _ _ _ "[]"])
  with key show ?thesis by (simp add: resolve_dockerfiles_def)
qed

text \<open>
  C2. Greedy longest match, for the resolver as the program calls it (the flag
  \<^verbatim>\<open>ignore_composite_keys\<close> at its default). One pass over a non-empty list of
  remaining keys either finds no Dockerfile for any prefix of the list in any search
  directory, and resolution fails; or it records the Dockerfile of a prefix of some length
  \<open>L\<close> in the search directory at some position \<open>k\<close>, where no longer prefix has a
  Dockerfile in any directory and no directory listed before \<open>k\<close> has one for
  this prefix, and the loop goes on with the keys after the first \<open>L\<close> and the
  Dockerfile appended. In particular, when some search directory holds
  \<^verbatim>\<open>Dockerfile.a.b\<close>, the keys \<open>a, b\<close> resolve to a plan of the single layer
  \<open>a.b\<close>, whether or not \<^verbatim>\<open>Dockerfile.a\<close> exists.
\<close>

theorem resolve_greedy_longest_match:
  assumes "image_ids \<noteq> []"
  shows "(case snd (scan_lengths fs dirs False image_ids (rev [0..<length image_ids])) of
            None \<Rightarrow>
              (\<forall>L \<in> {1..length image_ids}. \<forall>dir \<in> set dirs.
                 \<not> is_file fs (dockerfile_for dir (take L image_ids))) \<and>
              resolve_loop fs dirs False image_ids dfs = None
          | Some (d, remaining) \<Rightarrow>
              (\<exists>L k. 1 \<le> L \<and> L \<le> length image_ids \<and> k < length dirs \<and>
                 d = \<lparr>dockerfile_path = dockerfile_for (dirs ! k) (take L image_ids),
                      context_dir = dirs ! k, image_key = take L image_ids\<rparr> \<and>
                 is_file fs (dockerfile_for (dirs ! k) (take L image_ids)) \<and>
                 (\<forall>j < k. \<not> is_file fs (dockerfile_for (dirs ! j) (take L image_ids))) \<and>
                 (\<forall>L'. L < L' \<and> L' \<le> length image_ids \<longrightarrow>
                    (\<forall>dir \<in> set dirs. \<not> is_file fs (dockerfile_for dir (take L' image_ids)))) \<and>
                 remaining = drop L image_ids) \<and>
              resolve_loop fs dirs False image_ids dfs =
                resolve_loop fs dirs False remaining (dfs @ [d])) \<and>
         ((\<exists>dir \<in> set dirs. is_file fs (dockerfile_for dir [a, b])) \<longrightarrow>
          (\<exists>d. resolve_dockerfiles fs [a, b] dirs False =
                  Some \<lparr>dockerfiles = [d], plan_image_key = Some [a, b], build_variables = []\<rparr> \<and>
                image_key d = [a, b]))"
proof (intro conjI impI)
  show "case snd (scan_lengths fs dirs False image_ids (rev [0..<length image_ids])) of
          None \<Rightarrow>
            (\<forall>L \<in> {1..length image_ids}. \<forall>dir \<in> set dirs.
               \<not> is_file fs (dockerfile_for dir (take L image_ids))) \<and>
            resolve_loop fs dirs False image_ids dfs = None
        | Some (d, remaining) \<Rightarrow>
            (\<exists>L k. 1 \<le> L \<and> L \<le> length image_ids \<and> k < length dirs \<and>
               d = \<lparr>dockerfile_path = dockerfile_for (dirs ! k) (take L image_ids),
                    context_dir = dirs ! k, image_key = take L image_ids\<rparr> \<and>
               is_file fs (dockerfile_for (dirs ! k) (take L image_ids)) \<and>
               (\<forall>j < k. \<not> is_file fs (dockerfile_for (dirs ! j) (take L image_ids))) \<and>
               (\<forall>L'. L < L' \<and> L' \<le> length image_ids \<longrightarrow>
                  (\<forall>dir \<in> set dirs. \<not> is_file fs (dockerfile_for dir (take L' image_ids)))) \<and>
               remaining = drop L image_ids) \<and>
            resolve_loop fs dirs False image_ids dfs =
              resolve_loop fs dirs False remaining (dfs @ [d])"
  proof (cases "snd (scan_lengths fs dirs False image_ids (rev [0..<length image_ids]))")
    case None
    with round_no_match [of fs dirs image_ids] resolve_loop_no_match [OF assms None, of dfs]
    show ?thesis by simp
  next
    case (Some m)
    obtain d remaining where m: "m = (d, remaining)" by (cases m)
    from round_longest_match [OF Some [unfolded m]]
      resolve_loop_match [OF assms Some [unfolded m], of dfs]
    show ?thesis unfolding Some m by simp
  qed
next
  assume "\<exists>dir \<in> set dirs. is_file fs (dockerfile_for dir [a, b])"
  then show "\<exists>d. resolve_dockerfiles fs [a, b] dirs False =
                  Some \<lparr>dockerfiles = [d], plan_image_key = Some [a, b], build_variables = []\<rparr> \<and>
                image_key d = [a, b]"
    by (rule resolve_pair_single_layer)
qed

lemma demo_ab_has_pair:
  "\<exists>dir \<in> set [''/c'', ''/e'', ''/d'']. is_file demo_fs_ab (dockerfile_for dir [''a'', ''b''])"
  by (simp add: demo_fs_ab_def is_file_def dockerfile_for_def)

theorem resolve_greedy_longest_match_witness:
  "(\<exists>d. resolve_dockerfiles demo_fs_ab [''a'', ''b''] [''/c'', ''/e'', ''/d''] False =
          Some \<lparr>dockerfiles = [d], plan_image_key = Some [''a'', ''b''], build_variables = []\<rparr> \<and>
        image_key d = [''a'', ''b'']) \<and>
   resolve_dockerfiles demo_fs_ab (from_key_set [''b'', ''a''] None) [''/c'', ''/e'', ''/d''] False =
     Some \<lparr>dockerfiles =
             [\<lparr>dockerfile_path = ''/e/Dockerfile.a.b'', context_dir = ''/e'',
                image_key = [''a'', ''b'']\<rparr>],
           plan_image_key = Some [''a'', ''b''], build_variables = []\<rparr>"
proof -
  have ne: "[''a'', ''b''] \<noteq> []" by simp
  from resolve_greedy_longest_match [OF ne, where fs = demo_fs_ab
      and dirs = "[''/c'', ''/e'', ''/d'']" and a = "''a''" and b = "''b''"]
    demo_ab_has_pair
  have "\<exists>d. resolve_dockerfiles demo_fs_ab [''a'', ''b''] [''/c'', ''/e'', ''/d''] False =
          Some \<lparr>dockerfiles = [d], plan_image_key = Some [''a'', ''b''], build_variables = []\<rparr> \<and>
        image_key d = [''a'', ''b'']"
    by blast
  moreover have "from_key_set [''b'', ''a''] None = [''a'', ''b'']"
    by (simp add: from_key_set_def sorted_cmp_def compare_image_keys_def)
  moreover have "resolve_dockerfiles demo_fs_ab [''a'', ''b''] [''/c'', ''/e'', ''/d''] False =
     Some \<lparr>dockerfiles =
             [\<lparr>dockerfile_path = ''/e/Dockerfile.a.b'', context_dir = ''/e'',
                image_key = [''a'', ''b'']\<rparr>],
           plan_image_key = Some [''a'', ''b''], build_variables = []\<rparr>"
    by (simp add: resolve_dockerfiles_def resolve_loop.simps resolve_round_def demo_fs_ab_def
        is_file_def dockerfile_for_def Let_def)
  ultimately show ?thesis by simp
qed

lemma scan_lengths_flag:
  "scan_lengths fs dirs True ids is = scan_lengths fs dirs False ids (takeWhile (\<lambda>i. i \<noteq> 1) is)"
  by (induction "is") (auto simp: Let_def split: option.splits prod.splits)

lemma takeWhile_rev_upt:
  "takeWhile (\<lambda>i. i \<noteq> 1) (rev [0..<n]) = (if n = 1 then [0] else rev [2..<n])"
proof (induction n)
  case 0
  then show ?case by simp
next
  case (Suc n)
  consider "n = 0" | "n = 1" | "2 \<le> n" by linarith
  then show ?case
  proof cases
    case 1
    then show ?thesis by simp
  next
    case 2
    then show ?thesis by simp
  next
    case 3
    then have "[2..<Suc n] = [2..<n] @ [n]" by simp
    with 3 Suc show ?thesis by simp
  qed
qed

lemma scan_lengths_searched:
  "\<exists>k \<le> length is.
     fst (scan_lengths fs dirs False ids is) = map (\<lambda>i. join ''.'' (take (i + 1) ids)) (take k is) \<and>
     (snd (scan_lengths fs dirs False ids is) = None \<longrightarrow> k = length is)"
proof (induction "is")
  case Nil
  then show ?case by simp
next
  case (Cons i "is")
  show ?case
  proof (cases "search_dirs fs dirs (take (i + 1) ids)")
    case None
    obtain searched r where sr: "scan_lengths fs dirs False ids is = (searched, r)"
      by (cases "scan_lengths fs dirs False ids is")
    from Cons.IH obtain k where k: "k \<le> length is"
      and s: "searched = map (\<lambda>i. join ''.'' (take (i + 1) ids)) (take k is)"
      and r: "r = None \<longrightarrow> k = length is"
      unfolding sr by auto
    have step: "scan_lengths fs dirs False ids (i # is) = (join ''.'' (take (i + 1) ids) # searched, r)"
      using None sr by (simp add: Let_def)
    show ?thesis
      unfolding step using k s r by (intro exI [of _ "Suc k"]) simp
  next
    case (Some d)
    then have step: "scan_lengths fs dirs False ids (i # is) =
        ([join ''.'' (take (i + 1) ids)], Some (d, drop (i + 1) ids))"
      by (simp add: Let_def)
    show ?thesis unfolding step by (intro exI [of _ 1]) simp
  qed
qed

lemma map_rev_upt_shift:
  "map (\<lambda>i. f (i + 1)) (take k (rev [m..<n])) = map f (take k (rev [m + 1..<n + 1]))"
proof -
  have "[m + 1..<n + 1] = map Suc [m..<n]"
    unfolding Suc_eq_plus1 [symmetric] by (rule map_Suc_upt [symmetric])
  then have "rev [m + 1..<n + 1] = map Suc (rev [m..<n])" by (simp only: rev_map)
  then show ?thesis by (simp add: take_map comp_def)
qed

text \<open>
  C8 (amended). The candidates of one pass, as the suffixes it searches for, in order.
  With \<^verbatim>\<open>ignore_composite_keys\<close> unset they are the prefixes of the remaining keys of
  lengths \<open>len(remaining)\<close> down to 1, in decreasing order, up to the first that is
  found; a pass that fails has searched for every one of them. With the flag set the pass
  stops when it reaches index 1: it searches for the prefixes of lengths
  \<open>len(remaining)\<close> down to 3 only, except that a single remaining key is searched
  for at length 1.
\<close>

theorem scan_lengths_tried:
  "(\<exists>k. fst (scan_lengths fs dirs False ids (rev [0..<length ids])) =
          map (\<lambda>L. join ''.'' (take L ids)) (take k (rev [1..<length ids + 1])) \<and>
        (snd (scan_lengths fs dirs False ids (rev [0..<length ids])) = None \<longrightarrow>
           k = length ids)) \<and>
   (\<exists>k. fst (scan_lengths fs dirs True ids (rev [0..<length ids])) =
          map (\<lambda>L. join ''.'' (take L ids))
            (take k (if length ids = 1 then [1] else rev [3..<length ids + 1])) \<and>
        (snd (scan_lengths fs dirs True ids (rev [0..<length ids])) = None \<longrightarrow>
           k = (if length ids = 1 then 1 else length ids - 2)))"
proof (intro conjI)
  from scan_lengths_searched [of "rev [0..<length ids]" fs dirs ids]
  obtain k where "fst (scan_lengths fs dirs False ids (rev [0..<length ids])) =
      map (\<lambda>i. join ''.'' (take (i + 1) ids)) (take k (rev [0..<length ids]))"
    "snd (scan_lengths fs dirs False ids (rev [0..<length ids])) = None \<longrightarrow> k = length ids"
    by auto
  then show "\<exists>k. fst (scan_lengths fs dirs False ids (rev [0..<length ids])) =
          map (\<lambda>L. join ''.'' (take L ids)) (take k (rev [1..<length ids + 1])) \<and>
        (snd (scan_lengths fs dirs False ids (rev [0..<length ids])) = None \<longrightarrow>
           k = length ids)"
    using map_rev_upt_shift [of "\<lambda>L. join ''.'' (take L ids)" k 0 "length ids"]
    by (intro exI [of _ k]) simp
next
  define js where "js = (if length ids = 1 then [0] else rev [2..<length ids])"
  have flag: "scan_lengths fs dirs True ids (rev [0..<length ids]) = scan_lengths fs dirs False ids js"
    by (simp only: scan_lengths_flag takeWhile_rev_upt js_def)
  from scan_lengths_searched [of js fs dirs ids]
  obtain k where k: "fst (scan_lengths fs dirs False ids js) =
      map (\<lambda>i. join ''.'' (take (i + 1) ids)) (take k js)"
    "snd (scan_lengths fs dirs False ids js) = None \<longrightarrow> k = length js"
    by auto
  have shift: "map (\<lambda>i. join ''.'' (take (i + 1) ids)) (take k js) =
      map (\<lambda>L. join ''.'' (take L ids))
        (take k (if length ids = 1 then [1] else rev [3..<length ids + 1]))"
  proof (cases "length ids = 1")
    case True
    then show ?thesis by (cases k) (simp_all add: js_def)
  next
    case False
    then show ?thesis
      using map_rev_upt_shift [of "\<lambda>L. join ''.'' (take L ids)" k 2 "length ids"]
      by (simp add: js_def numeral_3_eq_3 numeral_2_eq_2)
  qed
  have len: "length js = (if length ids = 1 then 1 else length ids - 2)"
    by (simp add: js_def)
  show "\<exists>k. fst (scan_lengths fs dirs True ids (rev [0..<length ids])) =
          map (\<lambda>L. join ''.'' (take L ids))
            (take k (if length ids = 1 then [1] else rev [3..<length ids + 1])) \<and>
        (snd (scan_lengths fs dirs True ids (rev [0..<length ids])) = None \<longrightarrow>
           k = (if length ids = 1 then 1 else length ids - 2))"
    using k unfolding flag shift len by (intro exI [of _ k]) simp
qed

lemma demo_scan_fails:
  "snd (scan_lengths demo_fs [''/d''] False [''x'', ''y''] (rev [0..<length [''x'', ''y'']])) = None"
  by (simp add: Let_def demo_fs_def is_file_def dockerfile_for_def)

theorem scan_lengths_tried_witness:
  "fst (scan_lengths demo_fs [''/d''] False [''x'', ''y''] (rev [0..<length [''x'', ''y'']])) =
     [''x.y'', ''x'']"
proof -
  from scan_lengths_tried [of demo_fs "[''/d'']" "[''x'', ''y'']"] demo_scan_fails
  have "fst (scan_lengths demo_fs [''/d''] False [''x'', ''y''] (rev [0..<length [''x'', ''y'']])) =
     map (\<lambda>L. join ''.'' (take L [''x'', ''y''])) (take (length [''x'', ''y''])
        (rev [1..<length [''x'', ''y''] + 1]))"
    by blast
  then show ?thesis by simp
qed

text \<open>
  C8 as stated fails with the flag set. With one key remaining, the candidate of length
  1 is searched for and matched, although the claim says that lengths below 2 are not
  tried; with two keys remaining nothing is searched for, not even the candidate of
  length 2 whose Dockerfile exists, and resolution fails.
\<close>

theorem scan_lengths_flag_counterexample:
  "scan_lengths demo_fs [''/d''] True [''noble''] (rev [0..<length [''noble'']]) =
     ([''noble''],
      Some (\<lparr>dockerfile_path = ''/d/Dockerfile.noble'', context_dir = ''/d'',
              image_key = [''noble'']\<rparr>, [])) \<and>
   scan_lengths demo_fs_ab [''/d''] True [''a'', ''b''] (rev [0..<length [''a'', ''b'']]) =
     ([], None) \<and>
   resolve_dockerfiles demo_fs_ab [''a'', ''b''] [''/d''] True = None"
  by (simp add: Let_def demo_fs_def demo_fs_ab_def is_file_def dockerfile_for_def
      resolve_dockerfiles_def resolve_loop.simps resolve_round_def)

section \<open>Properties of the key ordering\<close>

lemma list_index_nth: "a \<in> set xs \<Longrightarrow> list_index xs a < length xs \<and> xs ! list_index xs a = a"
  by (induction xs) auto

lemma list_index_inj:
  "a \<in> set xs \<Longrightarrow> b \<in> set xs \<Longrightarrow> list_index xs a = list_index xs b \<Longrightarrow> a = b"
  using list_index_nth by metis

lemma compare_less_iff:
  "compare_image_keys ko a b < 0 \<longleftrightarrow>
     (a \<in> set ko \<and> b \<in> set ko \<and> list_index ko a < list_index ko b) \<or>
     (a \<in> set ko \<and> b \<notin> set ko) \<or>
     (a \<notin> set ko \<and> b \<notin> set ko \<and> a < b)"
  by (simp add: compare_image_keys_def)

lemma compare_asym: "compare_image_keys ko a b < 0 \<Longrightarrow> \<not> compare_image_keys ko b a < 0"
  unfolding compare_less_iff by auto

lemma compare_total:
  assumes "a \<noteq> b"
  shows "compare_image_keys ko a b < 0 \<or> compare_image_keys ko b a < 0"
proof -
  have idx: "list_index ko a < list_index ko b \<or> list_index ko b < list_index ko a"
    if "a \<in> set ko" "b \<in> set ko"
  proof -
    have "list_index ko a \<noteq> list_index ko b"
      using list_index_inj [OF that] assms by blast
    then show ?thesis by linarith
  qed
  have str: "a < b \<or> b < a" using assms by (auto simp: neq_iff)
  show ?thesis
    unfolding compare_less_iff using idx str
    by (cases "a \<in> set ko"; cases "b \<in> set ko") auto
qed

lemma compare_negtrans:
  "\<not> compare_image_keys ko b a < 0 \<Longrightarrow> \<not> compare_image_keys ko c b < 0 \<Longrightarrow>
   \<not> compare_image_keys ko c a < 0"
  unfolding compare_less_iff by (cases "a \<in> set ko"; cases "b \<in> set ko"; cases "c \<in> set ko") auto

lemma compare_antisym:
  "\<not> compare_image_keys ko b a < 0 \<Longrightarrow> \<not> compare_image_keys ko a b < 0 \<Longrightarrow> a = b"
  using compare_total by blast

lemma set_insort_cmp: "set (insort_cmp cmp x ys) = insert x (set ys)"
  by (induction ys) auto

lemma mset_insort_cmp: "mset (insort_cmp cmp x ys) = add_mset x (mset ys)"
  by (induction ys) auto

lemma mset_sorted_cmp: "mset (sorted_cmp cmp xs) = mset xs"
  by (induction xs) (simp_all add: sorted_cmp_def mset_insort_cmp)

lemma sorted_insort_cmp:
  assumes asym: "\<And>a b. cmp a b < 0 \<Longrightarrow> \<not> cmp b a < 0"
    and negtrans: "\<And>a b c. \<not> cmp b a < 0 \<Longrightarrow> \<not> cmp c b < 0 \<Longrightarrow> \<not> cmp c a < 0"
    and sorted: "sorted_wrt (\<lambda>a b. \<not> cmp b a < 0) ys"
  shows "sorted_wrt (\<lambda>a b. \<not> cmp b a < 0) (insort_cmp cmp x ys)"
  using sorted
proof (induction ys)
  case Nil
  then show ?case by simp
next
  case (Cons y ys)
  show ?case
  proof (cases "cmp y x < 0")
    case True
    with Cons asym [OF True] show ?thesis by (auto simp: set_insort_cmp)
  next
    case False
    with Cons.prems negtrans [OF False] show ?thesis by auto
  qed
qed

lemma sorted_sorted_cmp:
  assumes "\<And>a b. cmp a b < 0 \<Longrightarrow> \<not> cmp b a < 0"
    and "\<And>a b c. \<not> cmp b a < 0 \<Longrightarrow> \<not> cmp c b < 0 \<Longrightarrow> \<not> cmp c a < 0"
  shows "sorted_wrt (\<lambda>a b. \<not> cmp b a < 0) (sorted_cmp cmp xs)"
proof (induction xs)
  case Nil
  then show ?case by (simp add: sorted_cmp_def)
next
  case (Cons x xs)
  have "sorted_cmp cmp (x # xs) = insort_cmp cmp x (sorted_cmp cmp xs)"
    by (simp add: sorted_cmp_def)
  with sorted_insort_cmp [of cmp "sorted_cmp cmp xs" x, OF assms Cons] show ?case by simp
qed

lemma sorted_wrt_unique:
  assumes antisym: "\<And>a b. R a b \<Longrightarrow> R b a \<Longrightarrow> a = b"
  shows "sorted_wrt R xs \<Longrightarrow> sorted_wrt R ys \<Longrightarrow> mset xs = mset ys \<Longrightarrow> xs = ys"
proof (induction xs arbitrary: ys)
  case Nil
  then show ?case by simp
next
  case (Cons x xs)
  from Cons.prems(3) obtain y ys' where ys: "ys = y # ys'" by (cases ys) auto
  have "x \<in> set ys" "y \<in> set (x # xs)"
    using Cons.prems(3) ys by (metis list.set_intros(1) mset_eq_setD)+
  then have "x = y"
    using Cons.prems(1,2) ys antisym by auto
  with Cons.prems ys have "xs = ys'" by (intro Cons.IH) auto
  with \<open>x = y\<close> ys show ?case by simp
qed

lemma sorted_cmp_permutation:
  assumes "mset xs = mset ys"
  shows "sorted_cmp (compare_image_keys ko) xs = sorted_cmp (compare_image_keys ko) ys"
proof (rule sorted_wrt_unique [where R = "\<lambda>a b. \<not> compare_image_keys ko b a < 0"])
  show "a = b" if "\<not> compare_image_keys ko b a < 0" "\<not> compare_image_keys ko a b < 0" for a b
    using that by (rule compare_antisym)
  show "sorted_wrt (\<lambda>a b. \<not> compare_image_keys ko b a < 0) (sorted_cmp (compare_image_keys ko) xs)"
    by (rule sorted_sorted_cmp) (auto dest: compare_asym compare_negtrans)
  show "sorted_wrt (\<lambda>a b. \<not> compare_image_keys ko b a < 0) (sorted_cmp (compare_image_keys ko) ys)"
    by (rule sorted_sorted_cmp) (auto dest: compare_asym compare_negtrans)
  show "mset (sorted_cmp (compare_image_keys ko) xs) = mset (sorted_cmp (compare_image_keys ko) ys)"
    using assms by (simp add: mset_sorted_cmp)
qed

lemma from_key_set_permutation:
  "mset xs = mset ys \<Longrightarrow> from_key_set xs ko = from_key_set ys ko"
  unfolding from_key_set_def Let_def by (rule sorted_cmp_permutation)

lemma insort_cmp_empty_order: "insort_cmp (compare_image_keys []) x ys = insort x ys"
  by (induction ys) (auto simp: compare_image_keys_def)

lemma sorted_cmp_empty_order: "sorted_cmp (compare_image_keys []) xs = sort xs"
  by (induction xs) (simp_all add: sorted_cmp_def insort_cmp_empty_order)

lemma sorted_wrt_distinct_strict:
  "sorted_wrt R xs \<Longrightarrow> distinct xs \<Longrightarrow> sorted_wrt (\<lambda>a b. R a b \<and> a \<noteq> b) xs"
  by (induction xs) auto

text \<open>
  C7. Key ordering. The comparator orders two keys of the preference list by their
  index in it, puts a key of the list before a key outside it, and orders two keys
  outside it as strings. \<open>from_key_set\<close> is a total function: for every key list and
  preference list it returns a permutation of the keys that is sorted by the
  comparator (no key is placed after a key it is less than; strictly increasing when the
  keys are a set). With an absent or empty preference list the result is the keys in
  lexicographic order.
\<close>

theorem from_key_set_ordering:
  "(a \<in> set ko \<and> b \<in> set ko \<longrightarrow>
      compare_image_keys ko a b = (if list_index ko a < list_index ko b then - 1 else 1)) \<and>
   (a \<in> set ko \<and> b \<notin> set ko \<longrightarrow>
      compare_image_keys ko a b = - 1 \<and> compare_image_keys ko b a = 1) \<and>
   (a \<notin> set ko \<and> b \<notin> set ko \<longrightarrow>
      compare_image_keys ko a b = (if a < b then - 1 else 1)) \<and>
   mset (from_key_set xs (Some ko)) = mset xs \<and>
   sorted_wrt (\<lambda>x y. \<not> compare_image_keys ko y x < 0) (from_key_set xs (Some ko)) \<and>
   (distinct xs \<longrightarrow>
      sorted_wrt (\<lambda>x y. compare_image_keys ko x y < 0) (from_key_set xs (Some ko))) \<and>
   from_key_set xs None = sort xs \<and>
   from_key_set xs (Some []) = sort xs"
proof -
  have ko: "from_key_set xs (Some ko) = sorted_cmp (compare_image_keys ko) xs"
    by (simp add: from_key_set_def)
  have perm: "mset (from_key_set xs (Some ko)) = mset xs"
    unfolding ko by (rule mset_sorted_cmp)
  have sorted: "sorted_wrt (\<lambda>x y. \<not> compare_image_keys ko y x < 0) (from_key_set xs (Some ko))"
    unfolding ko by (rule sorted_sorted_cmp) (auto dest: compare_asym compare_negtrans)
  have strict: "sorted_wrt (\<lambda>x y. compare_image_keys ko x y < 0) (from_key_set xs (Some ko))"
    if "distinct xs"
  proof -
    from that perm have "distinct (from_key_set xs (Some ko))"
      by (metis mset_eq_imp_distinct_iff)
    from sorted_wrt_distinct_strict [OF sorted this]
    show ?thesis
      by (rule sorted_wrt_mono_rel [rotated]) (use compare_total in blast)
  qed
  have lex: "from_key_set xs None = sort xs" "from_key_set xs (Some []) = sort xs"
    by (simp_all add: from_key_set_def sorted_cmp_empty_order)
  show ?thesis
    using perm sorted strict lex by (simp add: compare_image_keys_def)
qed

theorem from_key_set_ordering_witness:
  "compare_image_keys [''z'', ''b''] ''z'' ''b'' = - 1 \<and>
   compare_image_keys [''z'', ''b''] ''b'' ''a'' = - 1 \<and>
   compare_image_keys [''z'', ''b''] ''a'' ''c'' = - 1 \<and>
   sorted_wrt (\<lambda>x y. compare_image_keys [''z'', ''b''] x y < 0)
     (from_key_set [''b'', ''a'', ''z'', ''c''] (Some [''z'', ''b'']))"
proof -
  have d: "distinct [''b'', ''a'', ''z'', ''c'']" by simp
  have "compare_image_keys [''z'', ''b''] ''z'' ''b'' = - 1"
    using from_key_set_ordering [where ko = "[''z'', ''b'']" and a = "''z''" and b = "''b''"]
    by simp
  moreover have "compare_image_keys [''z'', ''b''] ''b'' ''a'' = - 1"
    using from_key_set_ordering [where ko = "[''z'', ''b'']" and a = "''b''" and b = "''a''"]
    by simp
  moreover have "compare_image_keys [''z'', ''b''] ''a'' ''c'' = - 1"
    using from_key_set_ordering [where ko = "[''z'', ''b'']" and a = "''a''" and b = "''c''"]
    by simp
  moreover have "sorted_wrt (\<lambda>x y. compare_image_keys [''z'', ''b''] x y < 0)
     (from_key_set [''b'', ''a'', ''z'', ''c''] (Some [''z'', ''b'']))"
    using from_key_set_ordering [where ko = "[''z'', ''b'']"
        and xs = "[''b'', ''a'', ''z'', ''c'']"] d
    by blast
  ultimately show ?thesis by blast
qed

text \<open>
  C6. Order independence. Two key lists that are permutations of each other (the same
  key set iterated in two orders) are sorted into the same key sequence, for every
  preference list, and so resolve to the same result, plan or failure, for every file
  system, search path and flag.
\<close>

theorem key_order_independence:
  assumes "mset xs = mset ys"
  shows "from_key_set xs ko = from_key_set ys ko \<and>
         resolve_dockerfiles fs (from_key_set xs ko) dirs ign =
         resolve_dockerfiles fs (from_key_set ys ko) dirs ign"
  using from_key_set_permutation [OF assms, of ko] by simp

theorem key_order_independence_witness:
  "resolve_dockerfiles demo_fs (from_key_set [''ros2_jazzy'', ''noble''] None) [''/e'', ''/d''] False =
   resolve_dockerfiles demo_fs (from_key_set [''noble'', ''ros2_jazzy''] None) [''/e'', ''/d''] False \<and>
   from_key_set [''ros2_jazzy'', ''noble''] None = [''noble'', ''ros2_jazzy'']"
proof -
  have m: "mset [''ros2_jazzy'', ''noble''] = mset [''noble'', ''ros2_jazzy'']" by simp
  have "from_key_set [''noble'', ''ros2_jazzy''] None = [''noble'', ''ros2_jazzy'']"
    by (simp add: from_key_set_def sorted_cmp_def compare_image_keys_def)
  with key_order_independence [OF m, of None demo_fs "[''/e'', ''/d'']" False]
  show ?thesis by simp
qed

section \<open>Properties of the fingerprint\<close>

lemma foldl_append_lines:
  "foldl (\<lambda>tmp d. tmp @ f d) acc xs = acc @ concat (map f xs)"
  by (induction xs arbitrary: acc) simp_all

lemma md5hash_sorted_lines:
  "md5hash md5 fs dfs =
     hexdigest (md5 (concat (map (md5sum_line md5 fs) (sort_key image_key_of dfs))))"
  by (simp add: md5hash_def foldl_append_lines)

lemma insort_key_map:
  "map g (insort_key (\<lambda>x. f (g x)) x xs) = insort_key f (g x) (map g xs)"
  by (induction xs) simp_all

lemma sort_key_map:
  "map g (sort_key (\<lambda>x. f (g x)) xs) = sort_key f (map g xs)"
  by (induction xs) (simp_all add: insort_key_map)

text \<open>
  Sorting by key and then reading off a value that the key determines gives the same
  list for every arrangement of the input.
\<close>

lemma sort_key_determined_values:
  assumes perm: "mset xs = mset ys"
    and det: "\<forall>d \<in> set xs. \<forall>e \<in> set xs. key d = key e \<longrightarrow> val d = val e"
  shows "map val (sort_key key xs) = map val (sort_key key ys)"
proof -
  define g where "g = (\<lambda>d. (key d, val d))"
  have fstg: "fst (g d) = key d" and sndg: "snd (g d) = val d" for d
    by (simp_all add: g_def)
  have inj: "inj_on fst (set (map g xs))"
  proof (rule inj_onI)
    fix p q
    assume "p \<in> set (map g xs)" "q \<in> set (map g xs)" and eq: "fst p = fst q"
    then obtain d e where d: "d \<in> set xs" "p = g d" and e: "e \<in> set xs" "q = g e"
      by auto
    from eq d e have "key d = key e" by (simp add: fstg)
    with det d e have "val d = val e" by blast
    with \<open>key d = key e\<close> d e show "p = q" by (simp add: g_def)
  qed
  have "mset (map g xs) = mset (map g ys)"
    using perm by simp
  then have sorted_eq: "sort_key fst (map g xs) = sort_key fst (map g ys)"
    using inj by (rule sort_key_eq_sort_key)
  have commute: "sort_key fst (map g zs) = map g (sort_key key zs)" for zs
  proof -
    have "map g (sort_key (\<lambda>x. fst (g x)) zs) = sort_key fst (map g zs)"
      by (rule sort_key_map)
    then show ?thesis by (simp only: fstg)
  qed
  from sorted_eq have "map g (sort_key key xs) = map g (sort_key key ys)"
    by (simp only: commute)
  then have "map snd (map g (sort_key key xs)) = map snd (map g (sort_key key ys))"
    by (rule arg_cong)
  moreover have "map snd (map g zs) = map val zs" for zs
    by (simp add: sndg)
  ultimately show ?thesis by (simp only:)
qed

lemma md5hash_permutation:
  assumes "mset dfs = mset dfs'"
    and "\<forall>d \<in> set dfs. \<forall>e \<in> set dfs.
           image_key_of d = image_key_of e \<longrightarrow> md5sum_line md5 fs d = md5sum_line md5 fs e"
  shows "md5hash md5 fs dfs = md5hash md5 fs dfs'"
  unfolding md5hash_sorted_lines
  using sort_key_determined_values [OF assms] by simp

text \<open>Every Dockerfile of a resolved chain was found by the directory search.\<close>

lemma scan_lengths_found:
  "snd (scan_lengths fs dirs ign image_ids is) = Some (d, remaining) \<Longrightarrow>
   \<exists>ks. search_dirs fs dirs ks = Some d"
proof (induction "is")
  case Nil
  then show ?case by simp
next
  case (Cons i "is")
  show ?case
  proof (cases "ign \<and> i = 1")
    case True
    with Cons.prems show ?thesis by simp
  next
    case False
    note nobreak = this
    show ?thesis
    proof (cases "search_dirs fs dirs (take (i + 1) image_ids)")
      case None
      with nobreak Cons.prems
      have "snd (scan_lengths fs dirs ign image_ids is) = Some (d, remaining)"
        by (auto simp: Let_def split: prod.splits)
      from Cons.IH [OF this] show ?thesis .
    next
      case (Some d')
      with nobreak Cons.prems have "d' = d" by (auto simp: Let_def)
      with Some show ?thesis by blast
    qed
  qed
qed

lemma resolve_loop_found:
  "resolve_loop fs dirs ign image_ids dfs = Some out \<Longrightarrow>
   \<forall>d \<in> set out. d \<in> set dfs \<or> (\<exists>ks. search_dirs fs dirs ks = Some d)"
proof (induction fs dirs ign image_ids dfs rule: resolve_loop.induct)
  case (1 fs dirs ign image_ids dfs)
  show ?case
  proof (cases "image_ids = []")
    case True
    with "1.prems" show ?thesis by (simp add: resolve_loop.simps)
  next
    case False
    define st where "st = resolve_round fs dirs ign image_ids dfs"
    from "1.prems" False have ne: "length image_ids \<noteq> length (snd st)"
      and rec: "resolve_loop fs dirs ign (snd st) (fst st) = Some out"
      by (auto simp: resolve_loop.simps [of fs dirs ign image_ids dfs] Let_def st_def
          split: if_splits)
    from "1.IH" [OF False refl st_def ne rec]
    have IH: "\<forall>d \<in> set out. d \<in> set (fst st) \<or> (\<exists>ks. search_dirs fs dirs ks = Some d)" .
    have "\<forall>d \<in> set (fst st). d \<in> set dfs \<or> (\<exists>ks. search_dirs fs dirs ks = Some d)"
    proof (cases "snd (scan_lengths fs dirs ign image_ids (rev [0..<length image_ids]))")
      case None
      then show ?thesis by (simp add: st_def resolve_round_def)
    next
      case (Some m)
      obtain d remaining where m: "m = (d, remaining)" by (cases m)
      from scan_lengths_found [OF Some [unfolded m]] Some m
      show ?thesis by (auto simp: st_def resolve_round_def)
    qed
    with IH show ?thesis by blast
  qed
qed

lemma search_dirs_by_suffix:
  assumes "join ''.'' ks = join ''.'' ks'"
    and "search_dirs fs dirs ks = Some d" and "search_dirs fs dirs ks' = Some e"
  shows "dockerfile_path d = dockerfile_path e \<and> context_dir d = context_dir e"
  using assms
proof (induction dirs)
  case Nil
  then show ?case by simp
next
  case (Cons dir dirs)
  have same: "dockerfile_for dir ks = dockerfile_for dir ks'"
    using Cons.prems(1) by (simp add: dockerfile_for_def)
  show ?case
  proof (cases "is_file fs (dockerfile_for dir ks)")
    case True
    with Cons.prems same show ?thesis by (auto simp: Let_def)
  next
    case False
    with Cons.prems same have "search_dirs fs dirs ks = Some d" "search_dirs fs dirs ks' = Some e"
      by (auto simp: Let_def)
    with Cons.IH Cons.prems(1) show ?thesis by blast
  qed
qed

lemma search_dirs_image_key: "search_dirs fs dirs ks = Some d \<Longrightarrow> image_key d = ks"
  by (induction dirs) (auto simp: Let_def split: if_splits)

lemma resolved_keys_determine_lines:
  assumes "resolve_dockerfiles fs image_keys dirs ign = Some plan"
  shows "\<forall>d \<in> set (dockerfiles plan). \<forall>e \<in> set (dockerfiles plan).
           image_key_of d = image_key_of e \<longrightarrow> md5sum_line md5 fs d = md5sum_line md5 fs e"
proof (intro ballI impI)
  fix d e
  assume d: "d \<in> set (dockerfiles plan)" and e: "e \<in> set (dockerfiles plan)"
    and key: "image_key_of d = image_key_of e"
  from assms obtain dfs where loop: "resolve_loop fs dirs ign image_keys [] = Some dfs"
    and plan: "dockerfiles plan = dfs"
    by (auto simp: resolve_dockerfiles_def split: option.splits)
  from resolve_loop_found [OF loop] have "\<forall>d \<in> set dfs. \<exists>ks. search_dirs fs dirs ks = Some d"
    by simp
  with d e plan
  obtain ks ks' where s: "search_dirs fs dirs ks = Some d" "search_dirs fs dirs ks' = Some e"
    by blast
  from s key have "join ''.'' ks = join ''.'' ks'"
    by (simp add: image_key_of_def image_key_str_def search_dirs_image_key)
  from search_dirs_by_suffix [OF this s]
  show "md5sum_line md5 fs d = md5sum_line md5 fs e"
    by (simp add: md5sum_line_def)
qed

text \<open>
  C5. The fingerprint of a chain is the digest of the text made of the
  \<^verbatim>\<open>md5sum\<close> lines (\<open>hash\<close>, two spaces, file name) of its Dockerfiles, taken in the
  order of their composite keys. Hence a resolved chain and any rearrangement of its
  Dockerfiles, over the same files, have the same fingerprint: the order in which the
  definitions were found does not matter. (Lemma \<open>md5hash_permutation\<close> is the general
  fact: it holds for every list in which Dockerfiles with the same composite key have the
  same line, as they do in a resolved chain.)
\<close>

theorem md5hash_discovery_order:
  assumes "resolve_dockerfiles fs image_keys dirs ign = Some plan"
    and "mset dfs = mset (dockerfiles plan)"
  shows "md5hash md5 fs dfs =
           hexdigest (md5 (concat (map (md5sum_line md5 fs) (sort_key image_key_of dfs)))) \<and>
         md5hash md5 fs dfs = md5hash md5 fs (dockerfiles plan)"
  using md5hash_permutation [OF assms(2) [symmetric] resolved_keys_determine_lines [OF assms(1)],
      of md5]
  by (simp add: md5hash_sorted_lines)

theorem md5hash_discovery_order_witness:
  "md5hash demo_md5 demo_fs
     [\<lparr>dockerfile_path = ''/d/Dockerfile.ros2_jazzy'', context_dir = ''/d'',
        image_key = [''ros2_jazzy'']\<rparr>,
      \<lparr>dockerfile_path = ''/d/Dockerfile.noble'', context_dir = ''/d'',
        image_key = [''noble'']\<rparr>] =
   md5hash demo_md5 demo_fs
     [\<lparr>dockerfile_path = ''/d/Dockerfile.noble'', context_dir = ''/d'',
        image_key = [''noble'']\<rparr>,
      \<lparr>dockerfile_path = ''/d/Dockerfile.ros2_jazzy'', context_dir = ''/d'',
        image_key = [''ros2_jazzy'']\<rparr>]"
proof -
  have m: "mset [\<lparr>dockerfile_path = ''/d/Dockerfile.ros2_jazzy'', context_dir = ''/d'',
        image_key = [''ros2_jazzy'']\<rparr>,
      \<lparr>dockerfile_path = ''/d/Dockerfile.noble'', context_dir = ''/d'',
        image_key = [''noble'']\<rparr>] =
    mset (dockerfiles \<lparr>dockerfiles =
       [\<lparr>dockerfile_path = ''/d/Dockerfile.noble'', context_dir = ''/d'',
          image_key = [''noble'']\<rparr>,
        \<lparr>dockerfile_path = ''/d/Dockerfile.ros2_jazzy'', context_dir = ''/d'',
          image_key = [''ros2_jazzy'']\<rparr>],
       plan_image_key = Some [''noble'', ''ros2_jazzy''], build_variables = []\<rparr>)"
    by simp
  from md5hash_discovery_order [OF demo_resolve m, of demo_md5]
  show ?thesis unfolding ImageBuildPlan.select_convs by (rule conjunct2)
qed

section \<open>Properties of the bake dictionary\<close>

text \<open>Target names: the prefixes of a chain have names of strictly increasing length.\<close>

lemma length_hex_digits: "length (hex_digits k n) = k"
  by (induction k arbitrary: n) simp_all

lemma length_md5hash: "length (md5hash md5 fs dfs) = 32"
  by (simp add: md5hash_def Let_def hexdigest_def length_hex_digits)

lemma length_target_name:
  "length (target_name md5 fs dfs) = length (join ''-'' (map image_key_of dfs)) + 33"
  by (simp add: target_name_def Let_def length_md5hash)

lemma join_take_Suc:
  assumes "0 < n" "n < length xs"
  shows "join sep (take (Suc n) xs) = join sep (take n xs) @ sep @ xs ! n"
proof -
  from assms have "take n xs \<noteq> []" by auto
  from join_append [OF this, of "[xs ! n]" sep] assms(2)
  show ?thesis by (simp add: take_Suc_conv_app_nth)
qed

lemma length_join_take_mono:
  assumes "sep \<noteq> []" "1 \<le> m"
  shows "m < n \<Longrightarrow> n \<le> length xs \<Longrightarrow>
         length (join sep (take m xs)) < length (join sep (take n xs))"
proof (induction n)
  case 0
  then show ?case by simp
next
  case (Suc n)
  from Suc.prems assms have n: "0 < n" "n < length xs" by auto
  have step: "length (join sep (take n xs)) < length (join sep (take (Suc n) xs))"
    using assms(1) by (simp add: join_take_Suc [OF n])
  show ?case
  proof (cases "m = n")
    case True
    with step show ?thesis by simp
  next
    case False
    with Suc.prems have "m < n" by simp
    with Suc.IH n have "length (join sep (take m xs)) < length (join sep (take n xs))" by simp
    with step show ?thesis by simp
  qed
qed

lemma target_name_prefix_length:
  assumes "i < j" "j < length dfs"
  shows "length (target_name md5 fs (take (i + 1) dfs)) < length (target_name md5 fs (take (j + 1) dfs))"
proof -
  have "length (join ''-'' (take (i + 1) (map image_key_of dfs)))
          < length (join ''-'' (take (j + 1) (map image_key_of dfs)))"
    using assms by (intro length_join_take_mono) simp_all
  then show ?thesis by (simp add: length_target_name take_map)
qed

lemma target_name_prefix_inj:
  assumes "i < length dfs" "j < length dfs"
    and "target_name md5 fs (take (i + 1) dfs) = target_name md5 fs (take (j + 1) dfs)"
  shows "i = j"
proof (rule ccontr)
  assume "i \<noteq> j"
  then consider "i < j" | "j < i" by linarith
  then show False
  proof cases
    case 1
    from target_name_prefix_length [OF 1 assms(2), of md5 fs] assms(3) show False by simp
  next
    case 2
    from target_name_prefix_length [OF 2 assms(1), of md5 fs] assms(3) show False by simp
  qed
qed

lemma distinct_target_names: "distinct (target_names md5 fs dfs)"
  unfolding target_names_def distinct_map
  using target_name_prefix_inj by (auto intro!: inj_onI)

lemma final_target_not_stage: "''final_target'' \<notin> set (target_names md5 fs dfs)"
proof
  assume "''final_target'' \<in> set (target_names md5 fs dfs)"
  then obtain i where "''final_target'' = target_name md5 fs (take (i + 1) dfs)"
    by (auto simp: target_names_def)
  then have "length ''final_target'' = length (target_name md5 fs (take (i + 1) dfs))"
    by simp
  then show False by (simp add: length_target_name)
qed

lemma update_fresh: "k \<notin> fst ` set al \<Longrightarrow> AList.update k v al = al @ [(k, v)]"
  by (induction al) auto

lemma fold_update_fresh:
  "distinct (map k xs) \<Longrightarrow> \<forall>x \<in> set xs. k x \<notin> fst ` set acc \<Longrightarrow>
   fold (\<lambda>x acc. AList.update (k x) (v x) acc) xs acc = acc @ map (\<lambda>x. (k x, v x)) xs"
proof (induction xs arbitrary: acc)
  case Nil
  then show ?case by simp
next
  case (Cons x xs)
  from Cons.prems have fresh: "k x \<notin> fst ` set acc" by simp
  have "\<forall>y \<in> set xs. k y \<notin> fst ` set (acc @ [(k x, v x)])"
  proof
    fix y assume y: "y \<in> set xs"
    from Cons.prems(1) y have "k x \<notin> k ` set xs" by simp
    with y have "k y \<noteq> k x" by (metis imageI)
    moreover from Cons.prems(2) y have "k y \<notin> fst ` set acc" by simp
    ultimately have "k y \<noteq> k x" "k y \<notin> fst ` set acc" by blast+
    then show "k y \<notin> fst ` set (acc @ [(k x, v x)])" by auto
  qed
  with Cons.IH [of "acc @ [(k x, v x)]"] Cons.prems(1)
  have "fold (\<lambda>x acc. AList.update (k x) (v x) acc) xs (acc @ [(k x, v x)]) =
        (acc @ [(k x, v x)]) @ map (\<lambda>x. (k x, v x)) xs" by simp
  then show ?case by (simp add: update_fresh [OF fresh])
qed

lemma map_enumerate:
  "map (\<lambda>x. g (fst x) (snd x)) (List.enumerate 0 xs) = map (\<lambda>i. g i (xs ! i)) [0..<length xs]"
  by (rule nth_equalityI) (simp_all add: nth_enumerate_eq)

lemma stage_target_fst:
  "fst (stage_target md5 fs dfs fa reg base nt i d) = target_name md5 fs (take (i + 1) dfs)"
  by (simp add: stage_target_def Let_def)

lemma stage_targets_closed:
  "stage_targets md5 fs dfs fa reg base nt =
     map (\<lambda>i. stage_target md5 fs dfs fa reg base nt i (dfs ! i)) [0..<length dfs]"
proof -
  let ?st = "\<lambda>x. stage_target md5 fs dfs fa reg base nt (fst x) (snd x)"
  have keys: "map (\<lambda>x. fst (?st x)) (List.enumerate 0 dfs) = target_names md5 fs dfs"
    using map_enumerate [of "\<lambda>i d. target_name md5 fs (take (i + 1) dfs)" dfs]
    by (simp add: stage_target_fst target_names_def)
  have "stage_targets md5 fs dfs fa reg base nt =
        fold (\<lambda>x acc. AList.update (fst (?st x)) (snd (?st x)) acc) (List.enumerate 0 dfs) []"
    by (simp add: stage_targets_def case_prod_unfold)
  also have "\<dots> = [] @ map (\<lambda>x. (fst (?st x), snd (?st x))) (List.enumerate 0 dfs)"
    by (rule fold_update_fresh) (simp_all add: keys distinct_target_names)
  also have "\<dots> = map ?st (List.enumerate 0 dfs)"
    by simp
  also have "\<dots> = map (\<lambda>i. stage_target md5 fs dfs fa reg base nt i (dfs ! i)) [0..<length dfs]"
    by (rule map_enumerate)
  finally show ?thesis .
qed

text \<open>The fields of the dictionary that the loop builds for stage \<open>i\<close>.\<close>

lemma stage_target_name:
  "t_name (snd (stage_target md5 fs dfs fa reg base nt i d)) = target_name md5 fs (take (i + 1) dfs)"
  by (simp add: stage_target_def Let_def split: option.splits)

lemma stage_target_context:
  "t_context (snd (stage_target md5 fs dfs fa reg base nt i d)) = Some (context_dir d)"
  by (simp add: stage_target_def Let_def split: option.splits)

lemma stage_target_depends_on:
  "t_depends_on (snd (stage_target md5 fs dfs fa reg base nt i d)) =
     (if i = 0 then None else Some [target_name md5 fs (take i dfs)])"
  by (simp add: stage_target_def Let_def split: option.splits)

lemma stage_target_tags:
  "t_tags (snd (stage_target md5 fs dfs fa reg base nt i d)) =
     (if nvcr_registry reg
      then fmt reg @ '':'' @ target_name md5 fs (take (i + 1) dfs) @ ''-'' @ fa
      else fmt reg @ ''/'' @ target_name md5 fs (take (i + 1) dfs) @ ''-'' @ fa @ '':latest'')
     # (if nt then [''None:'' @ target_name md5 fs (take (i + 1) dfs)] else [])"
  by (simp add: stage_target_def Let_def fmt_def split: option.splits)

lemma stage_target_args:
  "t_args (snd (stage_target md5 fs dfs fa reg base nt i d)) =
     Some ((''PLATFORM'', fa) #
       (if i = 0 then (case base of None \<Rightarrow> [] | Some b \<Rightarrow> [(''BASE_IMAGE'', b)])
        else [(''BASE_IMAGE'',
               if nvcr_registry reg
               then fmt reg @ '':'' @ target_name md5 fs (take i dfs) @ ''-'' @ fa
               else fmt reg @ ''/'' @ target_name md5 fs (take i dfs) @ ''-'' @ fa @ '':latest'')]))"
  by (simp add: stage_target_def Let_def split: option.splits)


text \<open>Dictionaries as association lists with distinct keys.\<close>

lemma map_of_nth:
  "distinct (map fst al) \<Longrightarrow> i < length al \<Longrightarrow> map_of al (fst (al ! i)) = Some (snd (al ! i))"
  by (rule map_of_is_SomeI) (simp_all add: nth_mem)

lemma update_nth:
  "distinct (map fst al) \<Longrightarrow> i < length al \<Longrightarrow>
   AList.update (fst (al ! i)) v al = al[i := (fst (al ! i), v)]"
proof (induction al arbitrary: i)
  case Nil
  then show ?case by simp
next
  case (Cons p al)
  show ?case
  proof (cases i)
    case 0
    then show ?thesis by simp
  next
    case (Suc j)
    with Cons.prems have j: "j < length al" by simp
    then have "al ! j \<in> set al" by (rule nth_mem)
    then have "fst (al ! j) \<in> fst ` set al" by (rule imageI)
    moreover from Cons.prems(1) have "fst p \<notin> fst ` set al" by simp
    ultimately have "fst p \<noteq> fst (al ! j)" by metis
    moreover from Cons.prems(1) have "distinct (map fst al)" by simp
    ultimately show ?thesis using Cons.IH [OF _ j] Suc by simp
  qed
qed

lemma map_of_dict_update:
  "map_of (dict_update d other) k =
     (case map_of (rev other) k of Some v \<Rightarrow> Some v | None \<Rightarrow> map_of d k)"
proof (induction other arbitrary: d)
  case Nil
  then show ?case by (simp add: dict_update_def)
next
  case (Cons p other)
  obtain k' v' where p: "p = (k', v')" by (cases p)
  have "dict_update d (p # other) = dict_update (AList.update k' v' d) other"
    by (simp add: dict_update_def p)
  then show ?case
    using Cons [of "AList.update k' v' d"]
    by (simp add: p update_conv' map_add_def split: option.splits)
qed

text \<open>The extra build arguments change the \<open>args\<close> of every target and nothing else.\<close>

lemma apply_extra_build_args_keys:
  "map fst (apply_extra_build_args extra ts) = map fst ts"
  by (simp add: apply_extra_build_args_def case_prod_unfold comp_def split: option.splits)

lemma apply_extra_build_args_length:
  "length (apply_extra_build_args extra ts) = length ts"
  by (simp add: apply_extra_build_args_def split: option.splits)

lemma apply_extra_build_args_nth:
  assumes "i < length ts"
  shows "fst (apply_extra_build_args extra ts ! i) = fst (ts ! i)"
    and "t_name (snd (apply_extra_build_args extra ts ! i)) = t_name (snd (ts ! i))"
    and "t_context (snd (apply_extra_build_args extra ts ! i)) = t_context (snd (ts ! i))"
    and "t_tags (snd (apply_extra_build_args extra ts ! i)) = t_tags (snd (ts ! i))"
    and "t_depends_on (snd (apply_extra_build_args extra ts ! i)) = t_depends_on (snd (ts ! i))"
    and "t_args (snd (ts ! i)) = Some a \<Longrightarrow>
         \<exists>a'. t_args (snd (apply_extra_build_args extra ts ! i)) = Some a' \<and>
           (\<forall>k. map_of a' k =
              (case map_of (rev (case extra of None \<Rightarrow> [] | Some e \<Rightarrow> e)) k of
                 Some v \<Rightarrow> Some v | None \<Rightarrow> map_of a k))"
  using assms
  by (auto simp: apply_extra_build_args_def add_build_args_def case_prod_unfold
      map_of_dict_update split: option.splits)


lemma staged_targets_keys:
  "map fst (staged_targets md5 fs plan arch reg base extra nt) =
     target_names md5 fs (dockerfiles plan)"
  by (simp add: staged_targets_def apply_extra_build_args_keys stage_targets_closed
      target_names_def stage_target_fst comp_def)

lemma staged_targets_length:
  "length (staged_targets md5 fs plan arch reg base extra nt) = length (dockerfiles plan)"
  using arg_cong [OF staged_targets_keys, of length] by (simp add: target_names_def)

lemma staged_targets_nth:
  assumes "i < length (dockerfiles plan)"
  shows "fst (staged_targets md5 fs plan arch reg base extra nt ! i) =
           target_name md5 fs (take (i + 1) (dockerfiles plan))"
    and "t_name (snd (staged_targets md5 fs plan arch reg base extra nt ! i)) =
           target_name md5 fs (take (i + 1) (dockerfiles plan))"
    and "t_context (snd (staged_targets md5 fs plan arch reg base extra nt ! i)) =
           Some (context_dir (dockerfiles plan ! i))"
    and "t_depends_on (snd (staged_targets md5 fs plan arch reg base extra nt ! i)) =
           (if i = 0 then None else Some [target_name md5 fs (take i (dockerfiles plan))])"
    and "t_tags (snd (staged_targets md5 fs plan arch reg base extra nt ! i)) =
           (if nvcr_registry reg
            then fmt reg @ '':'' @ target_name md5 fs (take (i + 1) (dockerfiles plan)) @ ''-''
                   @ file_arch_of arch
            else fmt reg @ ''/'' @ target_name md5 fs (take (i + 1) (dockerfiles plan)) @ ''-''
                   @ file_arch_of arch @ '':latest'')
           # (if nt then [''None:'' @ target_name md5 fs (take (i + 1) (dockerfiles plan))]
              else [])"
proof -
  let ?S = "stage_targets md5 fs (dockerfiles plan) (file_arch_of arch) reg base nt"
  have len: "i < length ?S" using assms(1) by (simp add: stage_targets_closed)
  have nth: "?S ! i = stage_target md5 fs (dockerfiles plan) (file_arch_of arch) reg base nt i
                        (dockerfiles plan ! i)"
    using assms(1) by (simp add: stage_targets_closed)
  show "fst (staged_targets md5 fs plan arch reg base extra nt ! i) =
          target_name md5 fs (take (i + 1) (dockerfiles plan))"
    unfolding staged_targets_def apply_extra_build_args_nth(1) [OF len] nth
    by (rule stage_target_fst)
  show "t_name (snd (staged_targets md5 fs plan arch reg base extra nt ! i)) =
          target_name md5 fs (take (i + 1) (dockerfiles plan))"
    unfolding staged_targets_def apply_extra_build_args_nth(2) [OF len] nth
    by (rule stage_target_name)
  show "t_context (snd (staged_targets md5 fs plan arch reg base extra nt ! i)) =
          Some (context_dir (dockerfiles plan ! i))"
    unfolding staged_targets_def apply_extra_build_args_nth(3) [OF len] nth
    by (rule stage_target_context)
  show "t_depends_on (snd (staged_targets md5 fs plan arch reg base extra nt ! i)) =
          (if i = 0 then None else Some [target_name md5 fs (take i (dockerfiles plan))])"
    unfolding staged_targets_def apply_extra_build_args_nth(5) [OF len] nth
    by (rule stage_target_depends_on)
  show "t_tags (snd (staged_targets md5 fs plan arch reg base extra nt ! i)) =
           (if nvcr_registry reg
            then fmt reg @ '':'' @ target_name md5 fs (take (i + 1) (dockerfiles plan)) @ ''-''
                   @ file_arch_of arch
            else fmt reg @ ''/'' @ target_name md5 fs (take (i + 1) (dockerfiles plan)) @ ''-''
                   @ file_arch_of arch @ '':latest'')
           # (if nt then [''None:'' @ target_name md5 fs (take (i + 1) (dockerfiles plan))]
              else [])"
    unfolding staged_targets_def apply_extra_build_args_nth(4) [OF len] nth
    by (rule stage_target_tags)
qed

lemma staged_targets_base_image:
  assumes "i < length (dockerfiles plan)"
  shows "\<exists>a. t_args (snd (staged_targets md5 fs plan arch reg base extra nt ! i)) = Some a \<and>
           map_of a ''BASE_IMAGE'' =
             (case map_of (rev (case extra of None \<Rightarrow> [] | Some e \<Rightarrow> e)) ''BASE_IMAGE'' of
                Some v \<Rightarrow> Some v
              | None \<Rightarrow>
                  if i = 0 then base
                  else Some (hd (t_tags (snd (staged_targets md5 fs plan arch reg base extra nt
                                             ! (i - 1))))))"
proof -
  let ?S = "stage_targets md5 fs (dockerfiles plan) (file_arch_of arch) reg base nt"
  have len: "i < length ?S" using assms by (simp add: stage_targets_closed)
  have nth: "?S ! i = stage_target md5 fs (dockerfiles plan) (file_arch_of arch) reg base nt i
                        (dockerfiles plan ! i)"
    using assms by (simp add: stage_targets_closed)
  let ?a = "(''PLATFORM'', file_arch_of arch) #
       (if i = 0 then (case base of None \<Rightarrow> [] | Some b \<Rightarrow> [(''BASE_IMAGE'', b)])
        else [(''BASE_IMAGE'',
               if nvcr_registry reg
               then fmt reg @ '':'' @ target_name md5 fs (take i (dockerfiles plan)) @ ''-''
                      @ file_arch_of arch
               else fmt reg @ ''/'' @ target_name md5 fs (take i (dockerfiles plan)) @ ''-''
                      @ file_arch_of arch @ '':latest'')])"
  have args: "t_args (snd (?S ! i)) = Some ?a"
    unfolding nth by (rule stage_target_args)
  from apply_extra_build_args_nth(6) [OF len args, of extra]
  obtain a' where a': "t_args (snd (staged_targets md5 fs plan arch reg base extra nt ! i)) = Some a'"
    and look: "\<forall>k. map_of a' k =
              (case map_of (rev (case extra of None \<Rightarrow> [] | Some e \<Rightarrow> e)) k of
                 Some v \<Rightarrow> Some v | None \<Rightarrow> map_of ?a k)"
    unfolding staged_targets_def by blast
  have own: "map_of ?a ''BASE_IMAGE'' =
      (if i = 0 then base
       else Some (hd (t_tags (snd (staged_targets md5 fs plan arch reg base extra nt ! (i - 1))))))"
  proof (cases "i = 0")
    case True
    then show ?thesis by (simp split: option.splits)
  next
    case False
    with assms have prev: "i - 1 < length (dockerfiles plan)" "i - 1 + 1 = i" by simp_all
    define pt where "pt =
        (if nvcr_registry reg
         then fmt reg @ '':'' @ target_name md5 fs (take i (dockerfiles plan)) @ ''-''
                @ file_arch_of arch
         else fmt reg @ ''/'' @ target_name md5 fs (take i (dockerfiles plan)) @ ''-''
                @ file_arch_of arch @ '':latest'')"
    have "hd (t_tags (snd (staged_targets md5 fs plan arch reg base extra nt ! (i - 1)))) = pt"
      unfolding staged_targets_nth(5) [OF prev(1)] prev(2) pt_def by simp
    moreover have "map_of ?a ''BASE_IMAGE'' = Some pt"
      using False by (simp add: pt_def)
    ultimately show ?thesis using False by simp
  qed
  from look have "map_of a' ''BASE_IMAGE'' =
      (case map_of (rev (case extra of None \<Rightarrow> [] | Some e \<Rightarrow> e)) ''BASE_IMAGE'' of
         Some v \<Rightarrow> Some v | None \<Rightarrow> map_of ?a ''BASE_IMAGE'')"
    by (rule spec)
  then have "map_of a' ''BASE_IMAGE'' =
      (case map_of (rev (case extra of None \<Rightarrow> [] | Some e \<Rightarrow> e)) ''BASE_IMAGE'' of
         Some v \<Rightarrow> Some v
       | None \<Rightarrow>
           if i = 0 then base
           else Some (hd (t_tags (snd (staged_targets md5 fs plan arch reg base extra nt
                                      ! (i - 1))))))"
    by (simp only: own)
  with a' show ?thesis by blast
qed


text \<open>The result of \<open>generate_bake_dict\<close> in closed form.\<close>

lemma generate_bake_dict_no_final:
  "\<exists>bp. generate_bake_dict md5 fs plan arch reg None base ctx extra nt = Inr bp \<and>
        plan_targets bp = staged_targets md5 fs plan arch reg base extra nt"
  by (simp add: generate_bake_dict_def Let_def staged_targets_def)

lemma generate_bake_dict_empty_final:
  "dockerfiles plan = [] \<Longrightarrow>
   generate_bake_dict md5 fs plan arch reg (Some final_name) base ctx extra nt = Inl KeyError"
  by (simp add: generate_bake_dict_def Let_def stage_targets_def apply_extra_build_args_def
      split: option.splits)

lemma generate_bake_dict_final:
  assumes "dockerfiles plan \<noteq> []"
  shows "\<exists>bp ft.
     generate_bake_dict md5 fs plan arch reg (Some final_name) base ctx extra nt = Inr bp \<and>
     ft = (case ctx of
             None \<Rightarrow> snd (staged_targets md5 fs plan arch reg base extra nt
                          ! (length (dockerfiles plan) - 1))
           | Some c \<Rightarrow> (snd (staged_targets md5 fs plan arch reg base extra nt
                           ! (length (dockerfiles plan) - 1)))\<lparr>t_context := Some c\<rparr>) \<and>
     plan_targets bp =
       (staged_targets md5 fs plan arch reg base extra nt)
         [length (dockerfiles plan) - 1 := (target_name md5 fs (dockerfiles plan), ft)]
       @ [(''final_target'',
           \<lparr>t_name = final_name, t_context = None, t_dockerfile = None,
            t_dockerfile_inline = Some (''FROM '' @ hd (t_tags ft)),
            t_tags = [final_name], t_args = None,
            t_depends_on = Some [target_name md5 fs (dockerfiles plan)]\<rparr>)]"
proof -
  let ?E = "staged_targets md5 fs plan arch reg base extra nt"
  let ?key = "target_name md5 fs (dockerfiles plan)"
  define n where "n = length (dockerfiles plan) - 1"
  from assms have n: "n < length (dockerfiles plan)" and n1: "n + 1 = length (dockerfiles plan)"
    by (simp_all add: n_def)
  have nE: "n < length ?E" using n by (simp add: staged_targets_length)
  have key: "fst (?E ! n) = ?key"
    unfolding staged_targets_nth(1) [OF n] n1 by simp
  have dist: "distinct (map fst ?E)"
    by (simp add: staged_targets_keys distinct_target_names)
  have look: "map_of ?E ?key = Some (snd (?E ! n))"
    using map_of_nth [OF dist nE] key by simp
  define ft where "ft = (case ctx of None \<Rightarrow> snd (?E ! n)
                         | Some c \<Rightarrow> (snd (?E ! n))\<lparr>t_context := Some c\<rparr>)"
  have ft_name: "t_name ft = ?key"
    using staged_targets_nth(2) [OF n, of md5 fs arch reg base extra nt] n1
    by (simp add: ft_def split: option.splits)
  have "t_tags ft = t_tags (snd (?E ! n))"
    by (simp add: ft_def split: option.splits)
  then obtain tag rest where tags: "t_tags ft = tag # rest"
    unfolding staged_targets_nth(5) [OF n] by blast
  have upd: "AList.update ?key ft ?E = ?E[n := (?key, ft)]"
    using update_nth [OF dist nE, of ft] key by simp
  have "map fst (?E[n := (?key, ft)]) = map fst ?E"
    using key nE by (simp add: map_update list_update_same_conv)
  then have "fst ` set (?E[n := (?key, ft)]) = set (target_names md5 fs (dockerfiles plan))"
    using staged_targets_keys [of md5 fs plan arch reg base extra nt]
    by (metis set_map)
  then have fresh: "''final_target'' \<notin> fst ` set (?E[n := (?key, ft)])"
    using final_target_not_stage by simp
  have "generate_bake_dict md5 fs plan arch reg (Some final_name) base ctx extra nt =
        Inr \<lparr>plan_variables =
               dict_update (build_variables plan)
                 [(''ARCH'', arch), (''FILE_ARCH'', file_arch_of arch),
                  (''CACHE_FROM_REGISTRY'',
                   case reg of None \<Rightarrow> ''local'' | Some r \<Rightarrow> if r = [] then ''local'' else r)],
             plan_targets =
               ?E[n := (?key, ft)] @
               [(''final_target'',
                 \<lparr>t_name = final_name, t_context = None, t_dockerfile = None,
                  t_dockerfile_inline = Some (''FROM '' @ hd (t_tags ft)),
                  t_tags = [final_name], t_args = None,
                  t_depends_on = Some [?key]\<rparr>)]\<rparr>"
    unfolding generate_bake_dict_def Let_def staged_targets_def [symmetric]
    by (simp add: look ft_def [symmetric] upd tags ft_name update_fresh [OF fresh])
  then show ?thesis unfolding ft_def n_def by simp
qed


text \<open>
  The entries of the stages in a result: the staged entry, but for the build context of
  the last stage when a final image name is requested.
\<close>

lemma bake_stage_entry:
  assumes ok: "generate_bake_dict md5 fs plan arch reg tin base ctx extra nt = Inr bp"
    and i: "i < length (dockerfiles plan)"
  shows "plan_targets bp ! i =
           (fst (staged_targets md5 fs plan arch reg base extra nt ! i),
            if tin \<noteq> None \<and> i = length (dockerfiles plan) - 1
            then (case ctx of
                    None \<Rightarrow> snd (staged_targets md5 fs plan arch reg base extra nt ! i)
                  | Some c \<Rightarrow>
                      (snd (staged_targets md5 fs plan arch reg base extra nt ! i))
                        \<lparr>t_context := Some c\<rparr>)
            else snd (staged_targets md5 fs plan arch reg base extra nt ! i))"
proof (cases tin)
  case None
  with ok generate_bake_dict_no_final [of md5 fs plan arch reg base ctx extra nt]
  have "plan_targets bp = staged_targets md5 fs plan arch reg base extra nt" by auto
  with None show ?thesis by simp
next
  case (Some final_name)
  let ?E = "staged_targets md5 fs plan arch reg base extra nt"
  from ok Some have ne: "dockerfiles plan \<noteq> []"
    using generate_bake_dict_empty_final [of plan md5 fs arch reg final_name base ctx extra nt]
    by auto
  from generate_bake_dict_final [OF ne, of md5 fs arch reg final_name base ctx extra nt] ok Some
  obtain ft final where ft: "ft = (case ctx of
             None \<Rightarrow> snd (?E ! (length (dockerfiles plan) - 1))
           | Some c \<Rightarrow> (snd (?E ! (length (dockerfiles plan) - 1)))\<lparr>t_context := Some c\<rparr>)"
    and targets: "plan_targets bp =
       ?E[length (dockerfiles plan) - 1 := (target_name md5 fs (dockerfiles plan), ft)] @ [final]"
    by auto
  have iE: "i < length ?E" using i by (simp add: staged_targets_length)
  show ?thesis
  proof (cases "i = length (dockerfiles plan) - 1")
    case True
    from ne have "length (dockerfiles plan) - 1 + 1 = length (dockerfiles plan)" by simp
    with staged_targets_nth(1) [OF i, of md5 fs arch reg base extra nt] True
    have key: "fst (?E ! i) = target_name md5 fs (dockerfiles plan)" by simp
    have "plan_targets bp ! i = (target_name md5 fs (dockerfiles plan), ft)"
      using iE unfolding targets True [symmetric] by (simp add: nth_append)
    with key ft [folded True] Some True show ?thesis by (simp only:) simp
  next
    case False
    then have "plan_targets bp ! i = ?E ! i"
      using iE by (simp add: targets nth_append)
    with False show ?thesis by simp
  qed
qed

lemma bake_stage_fields:
  assumes ok: "generate_bake_dict md5 fs plan arch reg tin base ctx extra nt = Inr bp"
    and i: "i < length (dockerfiles plan)"
  shows "fst (plan_targets bp ! i) = target_name md5 fs (take (i + 1) (dockerfiles plan))"
    and "t_name (snd (plan_targets bp ! i)) = target_name md5 fs (take (i + 1) (dockerfiles plan))"
    and "t_depends_on (snd (plan_targets bp ! i)) =
           (if i = 0 then None else Some [target_name md5 fs (take i (dockerfiles plan))])"
    and "t_tags (snd (plan_targets bp ! i)) =
           t_tags (snd (staged_targets md5 fs plan arch reg base extra nt ! i))"
    and "t_args (snd (plan_targets bp ! i)) =
           t_args (snd (staged_targets md5 fs plan arch reg base extra nt ! i))"
    and "t_context (snd (plan_targets bp ! i)) =
           (if tin \<noteq> None \<and> i = length (dockerfiles plan) - 1
            then (case ctx of
                    None \<Rightarrow> Some (context_dir (dockerfiles plan ! i))
                  | Some c \<Rightarrow> Some c)
            else Some (context_dir (dockerfiles plan ! i)))"
proof -
  define t where "t = snd (staged_targets md5 fs plan arch reg base extra nt ! i)"
  define k where "k = fst (staged_targets md5 fs plan arch reg base extra nt ! i)"
  define final where "final \<longleftrightarrow> tin \<noteq> None \<and> i = length (dockerfiles plan) - 1"
  have entry: "plan_targets bp ! i =
      (k, if final then (case ctx of None \<Rightarrow> t | Some c \<Rightarrow> t\<lparr>t_context := Some c\<rparr>) else t)"
    using bake_stage_entry [OF ok i] by (simp only: t_def k_def final_def)
  note st = staged_targets_nth [OF i, of md5 fs arch reg base extra nt, folded t_def k_def]
  show "fst (plan_targets bp ! i) = target_name md5 fs (take (i + 1) (dockerfiles plan))"
    unfolding entry using st(1) by simp
  show "t_name (snd (plan_targets bp ! i)) = target_name md5 fs (take (i + 1) (dockerfiles plan))"
    unfolding entry using st(2) by (simp split: option.splits)
  show "t_depends_on (snd (plan_targets bp ! i)) =
           (if i = 0 then None else Some [target_name md5 fs (take i (dockerfiles plan))])"
    unfolding entry using st(4) by (simp split: option.splits)
  show "t_tags (snd (plan_targets bp ! i)) = t_tags t"
    unfolding entry by (simp split: option.splits)
  show "t_args (snd (plan_targets bp ! i)) = t_args t"
    unfolding entry by (simp split: option.splits)
  show "t_context (snd (plan_targets bp ! i)) =
           (if tin \<noteq> None \<and> i = length (dockerfiles plan) - 1
            then (case ctx of
                    None \<Rightarrow> Some (context_dir (dockerfiles plan ! i))
                  | Some c \<Rightarrow> Some c)
            else Some (context_dir (dockerfiles plan ! i)))"
    unfolding entry final_def [symmetric] using st(3) by (simp split: option.splits)
qed

lemma bake_target_keys:
  assumes ok: "generate_bake_dict md5 fs plan arch reg tin base ctx extra nt = Inr bp"
  shows "map fst (plan_targets bp) =
           target_names md5 fs (dockerfiles plan) @
           (case tin of None \<Rightarrow> [] | Some final_name \<Rightarrow> [''final_target''])"
proof (cases tin)
  case None
  with ok generate_bake_dict_no_final [of md5 fs plan arch reg base ctx extra nt]
  have "plan_targets bp = staged_targets md5 fs plan arch reg base extra nt" by auto
  with None show ?thesis by (simp add: staged_targets_keys)
next
  case (Some final_name)
  let ?E = "staged_targets md5 fs plan arch reg base extra nt"
  let ?n = "length (dockerfiles plan) - 1"
  from ok Some have ne: "dockerfiles plan \<noteq> []"
    using generate_bake_dict_empty_final [of plan md5 fs arch reg final_name base ctx extra nt]
    by auto
  from generate_bake_dict_final [OF ne, of md5 fs arch reg final_name base ctx extra nt] ok Some
  obtain ft final where targets: "plan_targets bp =
       ?E[?n := (target_name md5 fs (dockerfiles plan), ft)] @ [(''final_target'', final)]"
    by auto
  from ne have n: "?n < length (dockerfiles plan)" "?n + 1 = length (dockerfiles plan)"
    by simp_all
  have key: "fst (?E ! ?n) = target_name md5 fs (dockerfiles plan)"
    unfolding staged_targets_nth(1) [OF n(1)] n(2) by simp
  have "map fst (?E[?n := (target_name md5 fs (dockerfiles plan), ft)]) = map fst ?E"
    using key n(1) by (simp add: map_update list_update_same_conv staged_targets_length)
  with targets Some show ?thesis by (simp add: staged_targets_keys)
qed


lemma bake_returns:
  assumes "dockerfiles plan \<noteq> [] \<or> tin = None"
  shows "\<exists>bp. generate_bake_dict md5 fs plan arch reg tin base ctx extra nt = Inr bp"
proof (cases tin)
  case None
  with generate_bake_dict_no_final [of md5 fs plan arch reg base ctx extra nt]
  show ?thesis by auto
next
  case (Some final_name)
  with assms have "dockerfiles plan \<noteq> []" by simp
  from generate_bake_dict_final [OF this, of md5 fs arch reg final_name base ctx extra nt] Some
  show ?thesis by auto
qed

text \<open>The sample plan, evaluated.\<close>

lemma hexdigest_small:
  assumes "unat w < 256"
  shows "hexdigest w =
           ''000000000000000000000000000000'' @ [hex_char (unat w div 16), hex_char (unat w)]"
proof -
  have zero: "hex_digits k 0 = replicate k CHR ''0''" for k
    by (induction k) (simp_all add: hex_char_def replicate_append_same)
  have two: "hex_digits (Suc (Suc k)) n =
        hex_digits k (n div 16 div 16) @ [hex_char (n div 16), hex_char n]" for k n
    by simp
  have "(32::nat) = Suc (Suc 30)" by simp
  then have "hex_digits 32 (unat w) =
        hex_digits 30 (unat w div 16 div 16) @ [hex_char (unat w div 16), hex_char (unat w)]"
    by (simp only: two)
  moreover have "unat w div 16 div 16 = 0" using assms by simp
  moreover have "replicate 30 CHR ''0'' = ''000000000000000000000000000000''"
    by (simp add: eval_nat_numeral)
  ultimately show ?thesis by (simp add: hexdigest_def zero)
qed

lemma demo_digest_noble: "hexdigest (demo_md5 ''FROM ubuntu'') = ''0000000000000000000000000000000b''"
  by (simp add: demo_md5_def hexdigest_small hex_char_def)

lemma demo_digest_ros2_jazzy: "hexdigest (demo_md5 ''RUN x'') = ''00000000000000000000000000000005''"
  by (simp add: demo_md5_def hexdigest_small hex_char_def)

lemma demo_line_noble: "md5sum_line demo_md5 demo_fs
     \<lparr>dockerfile_path = ''/d/Dockerfile.noble'', context_dir = ''/d'', image_key = [''noble'']\<rparr> =
   ''0000000000000000000000000000000b  Dockerfile.noble'' @ [CHR 0x0A]"
  by (simp add: md5sum_line_def path_name_def demo_fs_def demo_digest_noble)

lemma demo_line_ros2_jazzy: "md5sum_line demo_md5 demo_fs
     \<lparr>dockerfile_path = ''/d/Dockerfile.ros2_jazzy'', context_dir = ''/d'', image_key = [''ros2_jazzy'']\<rparr> =
   ''00000000000000000000000000000005  Dockerfile.ros2_jazzy'' @ [CHR 0x0A]"
  by (simp add: md5sum_line_def path_name_def demo_fs_def demo_digest_ros2_jazzy)

lemma demo_md5hash_noble: "md5hash demo_md5 demo_fs
     [\<lparr>dockerfile_path = ''/d/Dockerfile.noble'', context_dir = ''/d'', image_key = [''noble'']\<rparr>] =
   ''00000000000000000000000000000033''"
  by (simp add: md5hash_def demo_line_noble demo_md5_def hexdigest_small hex_char_def)

lemma demo_md5hash_plan: "md5hash demo_md5 demo_fs (dockerfiles demo_plan) = ''0000000000000000000000000000006b''"
  by (simp add: md5hash_def demo_plan_def image_key_of_def image_key_str_def demo_line_noble demo_line_ros2_jazzy
      demo_md5_def hexdigest_small hex_char_def)


lemma demo_target_name_noble: "target_name demo_md5 demo_fs
     [\<lparr>dockerfile_path = ''/d/Dockerfile.noble'', context_dir = ''/d'', image_key = [''noble'']\<rparr>] =
   ''noble_00000000000000000000000000000033''"
  by (simp add: target_name_def demo_md5hash_noble image_key_of_def image_key_str_def)

lemma demo_target_name_plan: "target_name demo_md5 demo_fs
     [\<lparr>dockerfile_path = ''/d/Dockerfile.noble'', context_dir = ''/d'', image_key = [''noble'']\<rparr>,
      \<lparr>dockerfile_path = ''/d/Dockerfile.ros2_jazzy'', context_dir = ''/d'',
         image_key = [''ros2_jazzy'']\<rparr>] =
   ''noble-ros2_jazzy_0000000000000000000000000000006b''"
  using demo_md5hash_plan by (simp add: target_name_def demo_plan_def image_key_of_def image_key_str_def)

lemma demo_stage_targets:
  "stage_targets demo_md5 demo_fs (dockerfiles demo_plan) ''amd64'' (Some ''reg.example.com'')
     None False =
   [(''noble_00000000000000000000000000000033'',
     \<lparr>t_name = ''noble_00000000000000000000000000000033'',
      t_context = Some ''/d'',
      t_dockerfile = Some ''Dockerfile.noble'',
      t_dockerfile_inline = None,
      t_tags = [''reg.example.com/noble_00000000000000000000000000000033-amd64:latest''],
      t_args = Some [(''PLATFORM'', ''amd64'')],
      t_depends_on = None\<rparr>),
    (''noble-ros2_jazzy_0000000000000000000000000000006b'',
     \<lparr>t_name = ''noble-ros2_jazzy_0000000000000000000000000000006b'',
      t_context = Some ''/d'',
      t_dockerfile = Some ''Dockerfile.ros2_jazzy'',
      t_dockerfile_inline = None,
      t_tags = [''reg.example.com/noble-ros2_jazzy_0000000000000000000000000000006b-amd64:latest''],
      t_args = Some [(''PLATFORM'', ''amd64''),
                     (''BASE_IMAGE'',
                      ''reg.example.com/noble_00000000000000000000000000000033-amd64:latest'')],
      t_depends_on = Some [''noble_00000000000000000000000000000033'']\<rparr>)]"
  by (simp add: stage_targets_closed demo_plan_def upt_rec stage_target_def Let_def demo_target_name_noble demo_target_name_plan
      nvcr_registry_def fmt_def path_name_def)


lemma demo_plan_fields:
  "build_variables demo_plan = []"
  "target_name demo_md5 demo_fs (dockerfiles demo_plan) =
     ''noble-ros2_jazzy_0000000000000000000000000000006b''"
  using demo_target_name_plan by (simp_all add: demo_plan_def)

lemma demo_target_names:
  "target_names demo_md5 demo_fs (dockerfiles demo_plan) =
     [''noble_00000000000000000000000000000033'',
      ''noble-ros2_jazzy_0000000000000000000000000000006b'']"
  by (simp add: target_names_def demo_plan_def upt_rec demo_target_name_noble
      demo_target_name_plan)

lemma demo_plan_nonempty: "dockerfiles demo_plan \<noteq> []"
  by (simp add: demo_plan_def)

text \<open>
  C3 (amended). Whenever the chain has a layer or no final image name is requested, the
  bake dictionary is built, and its targets are, in order, one per chain prefix, named
  as \<open>target_names\<close> says (the \<open>-\<close>-joined keys of the first \<open>i + 1\<close> layers,
  \<open>_\<close>, the fingerprint of these layers), all names different, followed by the
  target \<open>final_target\<close> exactly when a final image name is requested. Target 0 has no
  \<open>depends_on\<close>, target \<open>i > 0\<close> depends on exactly target \<open>i - 1\<close>. The
  \<open>BASE_IMAGE\<close> argument of every target is the caller's value when the extra build
  arguments define \<open>BASE_IMAGE\<close> (the last binding, as \<^verbatim>\<open>dict.update\<close> leaves it);
  otherwise it is the base-image override for target 0 (absent if there is none) and the
  first tag of target \<open>i - 1\<close> for target \<open>i > 0\<close>.
\<close>

theorem bake_stage_chain:
  assumes "dockerfiles plan \<noteq> [] \<or> tin = None"
  shows "\<exists>bp. generate_bake_dict md5 fs plan arch reg tin base ctx extra nt = Inr bp \<and>
     map fst (plan_targets bp) =
       target_names md5 fs (dockerfiles plan) @
       (case tin of None \<Rightarrow> [] | Some final_name \<Rightarrow> [''final_target'']) \<and>
     distinct (map fst (plan_targets bp)) \<and>
     (\<forall>i < length (dockerfiles plan).
        fst (plan_targets bp ! i) =
          join ''-'' (map image_key_of (take (i + 1) (dockerfiles plan))) @ ''_'' @
          md5hash md5 fs (take (i + 1) (dockerfiles plan)) \<and>
        t_name (snd (plan_targets bp ! i)) = fst (plan_targets bp ! i) \<and>
        t_depends_on (snd (plan_targets bp ! i)) =
          (if i = 0 then None else Some [fst (plan_targets bp ! (i - 1))]) \<and>
        (\<exists>a. t_args (snd (plan_targets bp ! i)) = Some a \<and>
           map_of a ''BASE_IMAGE'' =
             (case map_of (rev (case extra of None \<Rightarrow> [] | Some e \<Rightarrow> e)) ''BASE_IMAGE'' of
                Some v \<Rightarrow> Some v
              | None \<Rightarrow>
                  if i = 0 then base
                  else Some (hd (t_tags (snd (plan_targets bp ! (i - 1))))))))"
proof -
  from bake_returns [OF assms] obtain bp
    where ok: "generate_bake_dict md5 fs plan arch reg tin base ctx extra nt = Inr bp" by blast
  have keys: "map fst (plan_targets bp) =
       target_names md5 fs (dockerfiles plan) @
       (case tin of None \<Rightarrow> [] | Some final_name \<Rightarrow> [''final_target''])"
    using ok by (rule bake_target_keys)
  have dist: "distinct (map fst (plan_targets bp))"
    unfolding keys using distinct_target_names [of md5 fs "dockerfiles plan"]
      final_target_not_stage [of md5 fs "dockerfiles plan"]
    by (simp split: option.splits)
  have stages: "fst (plan_targets bp ! i) =
          join ''-'' (map image_key_of (take (i + 1) (dockerfiles plan))) @ ''_'' @
          md5hash md5 fs (take (i + 1) (dockerfiles plan)) \<and>
        t_name (snd (plan_targets bp ! i)) = fst (plan_targets bp ! i) \<and>
        t_depends_on (snd (plan_targets bp ! i)) =
          (if i = 0 then None else Some [fst (plan_targets bp ! (i - 1))]) \<and>
        (\<exists>a. t_args (snd (plan_targets bp ! i)) = Some a \<and>
           map_of a ''BASE_IMAGE'' =
             (case map_of (rev (case extra of None \<Rightarrow> [] | Some e \<Rightarrow> e)) ''BASE_IMAGE'' of
                Some v \<Rightarrow> Some v
              | None \<Rightarrow>
                  if i = 0 then base
                  else Some (hd (t_tags (snd (plan_targets bp ! (i - 1)))))))"
    if i: "i < length (dockerfiles plan)" for i
  proof -
    note f = bake_stage_fields [OF ok i]
    have prev: "fst (plan_targets bp ! (i - 1)) = target_name md5 fs (take i (dockerfiles plan))
        \<and> t_tags (snd (plan_targets bp ! (i - 1))) =
          t_tags (snd (staged_targets md5 fs plan arch reg base extra nt ! (i - 1)))"
      if "i \<noteq> 0"
    proof -
      from that i have p: "i - 1 < length (dockerfiles plan)" "i - 1 + 1 = i" by simp_all
      from bake_stage_fields(1,4) [OF ok p(1)] p(2) show ?thesis by simp
    qed
    have name: "fst (plan_targets bp ! i) =
          join ''-'' (map image_key_of (take (i + 1) (dockerfiles plan))) @ ''_'' @
          md5hash md5 fs (take (i + 1) (dockerfiles plan))"
      unfolding f(1) by (simp add: target_name_def)
    have tname: "t_name (snd (plan_targets bp ! i)) = fst (plan_targets bp ! i)"
      unfolding f(1) f(2) by simp
    have dep: "t_depends_on (snd (plan_targets bp ! i)) =
          (if i = 0 then None else Some [fst (plan_targets bp ! (i - 1))])"
      unfolding f(3) using prev by simp
    from staged_targets_base_image [OF i, of md5 fs arch reg base extra nt]
    obtain a where a: "t_args (snd (staged_targets md5 fs plan arch reg base extra nt ! i)) = Some a"
      and b: "map_of a ''BASE_IMAGE'' =
             (case map_of (rev (case extra of None \<Rightarrow> [] | Some e \<Rightarrow> e)) ''BASE_IMAGE'' of
                Some v \<Rightarrow> Some v
              | None \<Rightarrow>
                  if i = 0 then base
                  else Some (hd (t_tags (snd (staged_targets md5 fs plan arch reg base extra nt
                                             ! (i - 1))))))"
      by blast
    have b': "map_of a ''BASE_IMAGE'' =
             (case map_of (rev (case extra of None \<Rightarrow> [] | Some e \<Rightarrow> e)) ''BASE_IMAGE'' of
                Some v \<Rightarrow> Some v
              | None \<Rightarrow>
                  if i = 0 then base
                  else Some (hd (t_tags (snd (plan_targets bp ! (i - 1))))))"
    proof (cases "i = 0")
      case True
      with b show ?thesis by simp
    next
      case False
      with prev have "t_tags (snd (plan_targets bp ! (i - 1))) =
          t_tags (snd (staged_targets md5 fs plan arch reg base extra nt ! (i - 1)))" by simp
      with b show ?thesis by (simp only:)
    qed
    from a f(5) have "t_args (snd (plan_targets bp ! i)) = Some a" by simp
    with b' name tname dep show ?thesis by blast
  qed
  from ok keys dist stages show ?thesis by blast
qed

theorem bake_stage_chain_witness:
  "\<exists>bp. generate_bake_dict demo_md5 demo_fs demo_plan ''x86_64'' (Some ''reg.example.com'')
           (Some ''img'') (Some ''base:1'') None None False = Inr bp \<and>
        map fst (plan_targets bp) =
          [''noble_00000000000000000000000000000033'',
           ''noble-ros2_jazzy_0000000000000000000000000000006b'',
           ''final_target'']"
proof -
  have ne: "dockerfiles demo_plan \<noteq> [] \<or> Some ''img'' = None"
    by (simp add: demo_plan_nonempty)
  from bake_stage_chain [OF ne, of demo_md5 demo_fs "''x86_64''" "Some ''reg.example.com''"
      "Some ''base:1''" None None False]
  show ?thesis by (auto simp: demo_target_names)
qed


text \<open>
  C3 as stated fails when the extra build arguments name \<open>BASE_IMAGE\<close>: with
  \<^verbatim>\<open>extra_build_args = {'BASE_IMAGE': 'zz'}\<close> both targets of the two-layer plan get
  \<open>BASE_IMAGE = zz\<close>, so target 1 does not receive the tag of target 0.
\<close>

theorem bake_base_image_counterexample:
  "generate_bake_dict demo_md5 demo_fs demo_plan ''x86_64'' (Some ''reg.example.com'') None
     None None (Some [(''BASE_IMAGE'', ''zz'')]) False =
   Inr \<lparr>plan_variables =
          [(''ARCH'', ''x86_64''), (''FILE_ARCH'', ''amd64''),
           (''CACHE_FROM_REGISTRY'', ''reg.example.com'')],
        plan_targets =
          [(''noble_00000000000000000000000000000033'',
            \<lparr>t_name = ''noble_00000000000000000000000000000033'',
             t_context = Some ''/d'',
             t_dockerfile = Some ''Dockerfile.noble'',
             t_dockerfile_inline = None,
             t_tags = [''reg.example.com/noble_00000000000000000000000000000033-amd64:latest''],
             t_args = Some [(''PLATFORM'', ''amd64''), (''BASE_IMAGE'', ''zz'')],
             t_depends_on = None\<rparr>),
           (''noble-ros2_jazzy_0000000000000000000000000000006b'',
            \<lparr>t_name = ''noble-ros2_jazzy_0000000000000000000000000000006b'',
             t_context = Some ''/d'',
             t_dockerfile = Some ''Dockerfile.ros2_jazzy'',
             t_dockerfile_inline = None,
             t_tags = [''reg.example.com/noble-ros2_jazzy_0000000000000000000000000000006b-amd64:latest''],
             t_args = Some [(''PLATFORM'', ''amd64''), (''BASE_IMAGE'', ''zz'')],
             t_depends_on = Some [''noble_00000000000000000000000000000033'']\<rparr>)]\<rparr>"
  by (simp add: generate_bake_dict_def Let_def file_arch_of_def demo_stage_targets
      demo_plan_fields apply_extra_build_args_def add_build_args_def dict_update_def)

text \<open>\<^verbatim>\<open>get_image_name\<close> chooses between the same two forms by the same test.\<close>

lemma str_count_pos: "sub \<noteq> [] \<Longrightarrow> str_count sub s \<noteq> 0 \<longleftrightarrow> str_in sub s"
proof (induction sub s rule: str_count.induct)
  case (1 sub s)
  show ?case
  proof (cases s)
    case Nil
    have "str_count sub [] = 0" using "1.prems" by (subst str_count.simps) simp
    with Nil "1.prems" show ?thesis by simp
  next
    case (Cons c cs)
    show ?thesis
    proof (cases "take (length sub) s = sub")
      case True
      have "str_count sub s = 1 + str_count sub (drop (length sub) s)"
        using True Cons "1.prems" by (subst str_count.simps) simp
      moreover have "str_in sub s" using True Cons by simp
      ultimately show ?thesis by simp
    next
      case False
      have "str_count sub s = str_count sub (tl s)"
        using False Cons "1.prems" by (subst str_count.simps) simp
      moreover have "str_in sub s = str_in sub cs" using False Cons by simp
      moreover from "1.IH"(2) "1.prems" False Cons
      have "str_count sub (tl s) \<noteq> 0 \<longleftrightarrow> str_in sub (tl s)" by simp
      ultimately show ?thesis using Cons by simp
    qed
  qed
qed

lemma get_image_name_format:
  assumes "get_image_name md5 fs name_suffix dirs registry env_list file_arch include_hash = Inr name"
  shows "\<exists>base_name.
           name = (if str_in ''nvcr.io'' registry
                   then registry @ '':'' @ base_name @ ''-'' @ file_arch
                   else registry @ ''/'' @ base_name @ ''-'' @ file_arch @ '':latest'')"
proof -
  have pos: "str_count ''nvcr.io'' registry \<noteq> 0 \<longleftrightarrow> str_in ''nvcr.io'' registry"
    by (rule str_count_pos) simp
  from assms show ?thesis
    unfolding get_image_name_def Let_def pos
    by (auto split: sum.splits if_splits)
qed

lemma nvcr_registry_Some: "nvcr_registry (Some r) = str_in ''nvcr.io'' r"
  by (cases r) (simp_all add: nvcr_registry_def)

text \<open>
  C4. In every bake dictionary that is built, the first tag of every stage target is
  \<open>registry:stagename-arch\<close> when the registry name contains \<^verbatim>\<open>nvcr.io\<close> and
  \<open>registry/stagename-arch:latest\<close> otherwise, where the stage name is the name of
  the target and \<open>arch\<close> is \<^verbatim>\<open>arm64\<close> or \<^verbatim>\<open>amd64\<close> (\<open>file_arch_of\<close>). An absent
  registry prints as \<^verbatim>\<open>None\<close> and takes the second form. The only other tag is the
  one \<^verbatim>\<open>nvcr_tag\<close> adds.
\<close>

theorem bake_stage_tags:
  assumes "generate_bake_dict md5 fs plan arch reg tin base ctx extra nt = Inr bp"
    and "i < length (dockerfiles plan)"
  shows "t_tags (snd (plan_targets bp ! i)) =
           (case reg of
              Some r \<Rightarrow>
                if str_in ''nvcr.io'' r
                then r @ '':'' @ fst (plan_targets bp ! i) @ ''-'' @ file_arch_of arch
                else r @ ''/'' @ fst (plan_targets bp ! i) @ ''-'' @ file_arch_of arch
                       @ '':latest''
            | None \<Rightarrow>
                ''None/'' @ fst (plan_targets bp ! i) @ ''-'' @ file_arch_of arch @ '':latest'')
           # (if nt then [''None:'' @ fst (plan_targets bp ! i)] else []) \<and>
         t_name (snd (plan_targets bp ! i)) = fst (plan_targets bp ! i) \<and>
         fst (plan_targets bp ! i) = target_name md5 fs (take (i + 1) (dockerfiles plan))"
proof -
  note f = bake_stage_fields [OF assms]
  note st = staged_targets_nth(5) [OF assms(2), of md5 fs arch reg base extra nt]
  have "t_tags (snd (plan_targets bp ! i)) =
           (if nvcr_registry reg
            then fmt reg @ '':'' @ fst (plan_targets bp ! i) @ ''-'' @ file_arch_of arch
            else fmt reg @ ''/'' @ fst (plan_targets bp ! i) @ ''-'' @ file_arch_of arch
                   @ '':latest'')
           # (if nt then [''None:'' @ fst (plan_targets bp ! i)] else [])"
    unfolding f(4) st f(1) by simp
  moreover have "(if nvcr_registry reg
            then fmt reg @ '':'' @ k @ ''-'' @ fa
            else fmt reg @ ''/'' @ k @ ''-'' @ fa @ '':latest'') =
           (case reg of
              Some r \<Rightarrow>
                if str_in ''nvcr.io'' r then r @ '':'' @ k @ ''-'' @ fa
                else r @ ''/'' @ k @ ''-'' @ fa @ '':latest''
            | None \<Rightarrow> ''None/'' @ k @ ''-'' @ fa @ '':latest'')" for k fa
    by (cases reg) (simp_all add: nvcr_registry_Some fmt_def, simp add: nvcr_registry_def)
  ultimately show ?thesis using f(1) f(2) by simp
qed

theorem bake_stage_tags_witness:
  "\<exists>bp. generate_bake_dict demo_md5 demo_fs demo_plan ''aarch64'' (Some ''nvcr.io/team/repo'')
           None None None None False = Inr bp \<and>
        t_tags (snd (plan_targets bp ! 1)) =
          [''nvcr.io/team/repo:noble-ros2_jazzy_0000000000000000000000000000006b-arm64'']"
proof -
  have "dockerfiles demo_plan \<noteq> [] \<or> (None :: string option) = None" by simp
  from bake_returns [OF this, of demo_md5 demo_fs "''aarch64''" "Some ''nvcr.io/team/repo''"
      None None None False]
  obtain bp where ok: "generate_bake_dict demo_md5 demo_fs demo_plan ''aarch64''
      (Some ''nvcr.io/team/repo'') None None None None False = Inr bp" by blast
  have i: "1 < length (dockerfiles demo_plan)" by (simp add: demo_plan_def)
  have "take (1 + 1) (dockerfiles demo_plan) = dockerfiles demo_plan"
    by (simp add: demo_plan_def)
  with bake_stage_tags [OF ok i] demo_plan_fields(2)
  have "t_tags (snd (plan_targets bp ! 1)) =
          [''nvcr.io/team/repo:noble-ros2_jazzy_0000000000000000000000000000006b-arm64'']"
    by (simp add: file_arch_of_def)
  with ok show ?thesis by blast
qed


text \<open>
  C9 (amended). When a final image name is requested for a chain with at least one
  layer, the bake dictionary is built and holds exactly one more target than the chain
  has layers: the last one, under the key \<open>final_target\<close>, which no other target has.
  Its inline Dockerfile is the single line \<open>FROM\<close> the first tag of the last stage,
  its \<open>depends_on\<close> holds exactly the name of the last stage, its tags are exactly the
  requested name, and it has no build context, no Dockerfile and no arguments. A context
  override is carried by the target of the last stage, not by the final target.
\<close>

theorem bake_final_target:
  assumes "dockerfiles plan \<noteq> []"
  shows "\<exists>bp. generate_bake_dict md5 fs plan arch reg (Some final_name) base ctx extra nt = Inr bp \<and>
     length (plan_targets bp) = length (dockerfiles plan) + 1 \<and>
     last (plan_targets bp) =
       (''final_target'',
        \<lparr>t_name = final_name, t_context = None, t_dockerfile = None,
         t_dockerfile_inline =
           Some (''FROM '' @
                 hd (t_tags (snd (plan_targets bp ! (length (dockerfiles plan) - 1))))),
         t_tags = [final_name], t_args = None,
         t_depends_on = Some [fst (plan_targets bp ! (length (dockerfiles plan) - 1))]\<rparr>) \<and>
     ''final_target'' \<notin> set (map fst (butlast (plan_targets bp))) \<and>
     fst (plan_targets bp ! (length (dockerfiles plan) - 1)) =
       target_name md5 fs (dockerfiles plan) \<and>
     t_context (snd (plan_targets bp ! (length (dockerfiles plan) - 1))) =
       (case ctx of None \<Rightarrow> Some (context_dir (last (dockerfiles plan))) | Some c \<Rightarrow> Some c)"
proof -
  let ?E = "staged_targets md5 fs plan arch reg base extra nt"
  define n where "n = length (dockerfiles plan) - 1"
  from assms have n: "n < length (dockerfiles plan)" "n + 1 = length (dockerfiles plan)"
    by (simp_all add: n_def)
  from generate_bake_dict_final [OF assms, of md5 fs arch reg final_name base ctx extra nt]
  obtain bp ft where
    ok: "generate_bake_dict md5 fs plan arch reg (Some final_name) base ctx extra nt = Inr bp"
    and targets: "plan_targets bp =
       ?E[n := (target_name md5 fs (dockerfiles plan), ft)]
       @ [(''final_target'',
           \<lparr>t_name = final_name, t_context = None, t_dockerfile = None,
            t_dockerfile_inline = Some (''FROM '' @ hd (t_tags ft)),
            t_tags = [final_name], t_args = None,
            t_depends_on = Some [target_name md5 fs (dockerfiles plan)]\<rparr>)]"
    unfolding n_def by blast
  have nE: "n < length ?E" using n by (simp add: staged_targets_length)
  have nth: "plan_targets bp ! n = (target_name md5 fs (dockerfiles plan), ft)"
    using nE by (simp add: targets nth_append)
  have len: "length (plan_targets bp) = length (dockerfiles plan) + 1"
    by (simp add: targets staged_targets_length)
  have lst: "last (plan_targets bp) =
       (''final_target'',
        \<lparr>t_name = final_name, t_context = None, t_dockerfile = None,
         t_dockerfile_inline = Some (''FROM '' @ hd (t_tags (snd (plan_targets bp ! n)))),
         t_tags = [final_name], t_args = None,
         t_depends_on = Some [fst (plan_targets bp ! n)]\<rparr>)"
    unfolding nth by (simp add: targets)
  have "map fst (plan_targets bp) = target_names md5 fs (dockerfiles plan) @ [''final_target'']"
    using bake_target_keys [OF ok] by simp
  then have "map fst (butlast (plan_targets bp)) = target_names md5 fs (dockerfiles plan)"
    by (simp add: map_butlast)
  then have once: "''final_target'' \<notin> set (map fst (butlast (plan_targets bp)))"
    using final_target_not_stage by simp
  have key: "fst (plan_targets bp ! n) = target_name md5 fs (dockerfiles plan)"
    unfolding nth by simp
  have lastn: "dockerfiles plan ! n = last (dockerfiles plan)"
    using assms by (simp add: last_conv_nth n_def)
  have "t_context (snd (plan_targets bp ! n)) =
       (case ctx of None \<Rightarrow> Some (context_dir (dockerfiles plan ! n)) | Some c \<Rightarrow> Some c)"
    using bake_stage_fields(6) [OF ok n(1)] unfolding n_def [symmetric] by simp
  then have ctx: "t_context (snd (plan_targets bp ! n)) =
       (case ctx of None \<Rightarrow> Some (context_dir (last (dockerfiles plan))) | Some c \<Rightarrow> Some c)"
    by (simp only: lastn)
  from ok len lst once key ctx show ?thesis unfolding n_def by blast
qed

theorem bake_final_target_witness:
  "\<exists>bp. generate_bake_dict demo_md5 demo_fs demo_plan ''x86_64'' (Some ''reg.example.com'')
           (Some ''img'') None (Some ''/ctx'') None False = Inr bp \<and>
        length (plan_targets bp) = 3 \<and>
        fst (last (plan_targets bp)) = ''final_target'' \<and>
        t_context (snd (plan_targets bp ! 1)) = Some ''/ctx''"
proof -
  from bake_final_target [OF demo_plan_nonempty, of demo_md5 demo_fs "''x86_64''"
      "Some ''reg.example.com''" "''img''" None "Some ''/ctx''" None False]
  show ?thesis by (auto simp: demo_plan_def)
qed


text \<open>
  C9 as stated fails in its last part: with a context override \<^verbatim>\<open>/ctx\<close> the final
  target has no build context; the override is on the target of the last stage.
\<close>

theorem bake_final_context_counterexample:
  "generate_bake_dict demo_md5 demo_fs demo_plan ''x86_64'' (Some ''reg.example.com'')
     (Some ''img'') None (Some ''/ctx'') None False =
   Inr \<lparr>plan_variables =
          [(''ARCH'', ''x86_64''), (''FILE_ARCH'', ''amd64''),
           (''CACHE_FROM_REGISTRY'', ''reg.example.com'')],
        plan_targets =
          [(''noble_00000000000000000000000000000033'',
            \<lparr>t_name = ''noble_00000000000000000000000000000033'',
             t_context = Some ''/d'',
             t_dockerfile = Some ''Dockerfile.noble'',
             t_dockerfile_inline = None,
             t_tags = [''reg.example.com/noble_00000000000000000000000000000033-amd64:latest''],
             t_args = Some [(''PLATFORM'', ''amd64'')],
             t_depends_on = None\<rparr>),
           (''noble-ros2_jazzy_0000000000000000000000000000006b'',
            \<lparr>t_name = ''noble-ros2_jazzy_0000000000000000000000000000006b'',
             t_context = Some ''/ctx'',
             t_dockerfile = Some ''Dockerfile.ros2_jazzy'',
             t_dockerfile_inline = None,
             t_tags = [''reg.example.com/noble-ros2_jazzy_0000000000000000000000000000006b-amd64:latest''],
             t_args = Some [(''PLATFORM'', ''amd64''),
                            (''BASE_IMAGE'',
                             ''reg.example.com/noble_00000000000000000000000000000033-amd64:latest'')],
             t_depends_on = Some [''noble_00000000000000000000000000000033'']\<rparr>),
           (''final_target'',
            \<lparr>t_name = ''img'',
             t_context = None,
             t_dockerfile = None,
             t_dockerfile_inline =
               Some ''FROM reg.example.com/noble-ros2_jazzy_0000000000000000000000000000006b-amd64:latest'',
             t_tags = [''img''],
             t_args = None,
             t_depends_on = Some [''noble-ros2_jazzy_0000000000000000000000000000006b'']\<rparr>)]\<rparr>"
  by (simp add: generate_bake_dict_def Let_def file_arch_of_def demo_stage_targets
      demo_plan_fields apply_extra_build_args_def dict_update_def)

end
